theory Spec2Isabelle
  imports Main "HOL-Library.AList" "HOL-Library.Monad_Syntax" "HOL-Library.Multiset"
begin

section \<open>The LRU cache (part-b/src/storage_engine.h, class LRUCache)\<close>

text \<open>
  The class keeps its nodes in a doubly linked list between the raw pointers \<open>head_\<close>
  (most recent) and \<open>tail_\<close> (least recent) and finds them through the hash map \<open>cache_\<close>
  from a key to the address of its node. The model keeps the pointers as they are: a
  node lives at an address in \<open>heap\<close>, \<open>new\<close> takes the next address that was never used
  (so that a pointer to a deleted node stays dangling), \<open>delete\<close> removes the node from
  the heap, and a null pointer is \<open>None\<close>. Reading or writing through a null pointer or
  through a pointer to a deleted node is undefined behaviour; every function that
  dereferences a pointer therefore returns an option, and \<open>None\<close> stands for undefined
  behaviour. \<open>cache_\<close> is the association list \<open>cache_map\<close>, \<open>cache_.size()\<close> its length.
\<close>

type_synonym addr = nat

record Node =
  key :: string
  val :: string
  prev :: "addr option"
  nxt :: "addr option"

record LRUCache =
  capacity :: nat
  cache_map :: "(string \<times> addr) list"
  head :: "addr option"
  tail :: "addr option"
  heap :: "(addr \<times> Node) list"
  next_free :: addr

definition LRUCache_new :: "nat \<Rightarrow> LRUCache" where
  "LRUCache_new cap =
     \<lparr>capacity = cap, cache_map = [], head = None, tail = None, heap = [], next_free = 0\<rparr>"

definition lru_size :: "LRUCache \<Rightarrow> nat" where
  "lru_size c = length (cache_map c)"

text \<open>\<open>node_at\<close> reads the node a pointer points to; \<open>set_next\<close>, \<open>set_prev\<close> and
  \<open>set_val\<close> are the assignments \<open>p->next = x\<close>, \<open>p->prev = x\<close> and \<open>p->value = v\<close>.\<close>

definition node_at :: "LRUCache \<Rightarrow> addr option \<Rightarrow> Node option" where
  "node_at c p = (case p of None \<Rightarrow> None | Some a \<Rightarrow> map_of (heap c) a)"

definition update_node :: "addr option \<Rightarrow> (Node \<Rightarrow> Node) \<Rightarrow> LRUCache \<Rightarrow> LRUCache option" where
  "update_node p f c =
     (case node_at c p of
        None \<Rightarrow> None
      | Some n \<Rightarrow> Some (c\<lparr>heap := AList.update (the p) (f n) (heap c)\<rparr>))"

definition set_next :: "addr option \<Rightarrow> addr option \<Rightarrow> LRUCache \<Rightarrow> LRUCache option" where
  "set_next p x c = update_node p (\<lambda>n. n\<lparr>nxt := x\<rparr>) c"

definition set_prev :: "addr option \<Rightarrow> addr option \<Rightarrow> LRUCache \<Rightarrow> LRUCache option" where
  "set_prev p x c = update_node p (\<lambda>n. n\<lparr>prev := x\<rparr>) c"

definition set_val :: "addr option \<Rightarrow> string \<Rightarrow> LRUCache \<Rightarrow> LRUCache option" where
  "set_val p v c = update_node p (\<lambda>n. n\<lparr>val := v\<rparr>) c"

definition delete_node :: "addr \<Rightarrow> LRUCache \<Rightarrow> LRUCache" where
  "delete_node a c = c\<lparr>heap := AList.delete a (heap c)\<rparr>"

text \<open>\<open>move_to_front\<close>, statement by statement.\<close>

definition move_to_front :: "addr \<Rightarrow> LRUCache \<Rightarrow> LRUCache option" where
  "move_to_front node c =
     (if Some node = head c then Some c
      else do {
        c1 \<leftarrow> (if Some node = tail c
               then do {
                 n \<leftarrow> node_at c (Some node);
                 let c' = c\<lparr>tail := prev n\<rparr>;
                 set_next (tail c') None c'
               }
               else do {
                 n \<leftarrow> node_at c (Some node);
                 c' \<leftarrow> set_next (prev n) (nxt n) c;
                 n' \<leftarrow> node_at c' (Some node);
                 set_prev (nxt n') (prev n') c'
               });
        c2 \<leftarrow> set_prev (Some node) None c1;
        c3 \<leftarrow> set_next (Some node) (head c2) c2;
        c4 \<leftarrow> set_prev (head c3) (Some node) c3;
        Some (c4\<lparr>head := Some node\<rparr>)
      })"

text \<open>\<open>evict_lru\<close>: if there is a tail, its key is erased from the map, \<open>tail_\<close> moves to
  its predecessor, whose \<open>next\<close> is cleared if there is one, and the node is deleted.
  \<open>head_\<close> is not assigned.\<close>

definition evict_lru :: "LRUCache \<Rightarrow> LRUCache option" where
  "evict_lru c =
     (case tail c of
        None \<Rightarrow> Some c
      | Some temp \<Rightarrow> do {
          t \<leftarrow> node_at c (tail c);
          let c1 = c\<lparr>cache_map := AList.delete (key t) (cache_map c)\<rparr>;
          let c2 = c1\<lparr>tail := prev t\<rparr>;
          c3 \<leftarrow> (if tail c2 \<noteq> None then set_next (tail c2) None c2 else Some c2);
          Some (delete_node temp c3)
        })"

definition lru_get :: "LRUCache \<Rightarrow> string \<Rightarrow> (string option \<times> LRUCache) option" where
  "lru_get c k =
     (case map_of (cache_map c) k of
        Some node \<Rightarrow> do {
          c' \<leftarrow> move_to_front node c;
          n \<leftarrow> node_at c' (Some node);
          Some (Some (val n), c')
        }
      | None \<Rightarrow> Some (None, c))"

text \<open>The second half of \<open>put\<close>: a new node is allocated, entered in the map and linked
  in front of \<open>head_\<close>.\<close>

definition link_new_node :: "string \<Rightarrow> string \<Rightarrow> LRUCache \<Rightarrow> LRUCache option" where
  "link_new_node k v c =
     (let new_node = next_free c;
          c2 = c\<lparr>heap := AList.update new_node \<lparr>key = k, val = v, prev = None, nxt = None\<rparr> (heap c),
                  next_free := Suc new_node\<rparr>;
          c3 = c2\<lparr>cache_map := AList.update k new_node (cache_map c2)\<rparr>
      in if head c3 = None then Some (c3\<lparr>head := Some new_node, tail := Some new_node\<rparr>)
         else do {
           c4 \<leftarrow> set_next (Some new_node) (head c3) c3;
           c5 \<leftarrow> set_prev (head c4) (Some new_node) c4;
           Some (c5\<lparr>head := Some new_node\<rparr>)
         })"

definition lru_put :: "LRUCache \<Rightarrow> string \<Rightarrow> string \<Rightarrow> (bool \<times> LRUCache) option" where
  "lru_put c k v =
     (case map_of (cache_map c) k of
        Some node \<Rightarrow> do {
          c1 \<leftarrow> set_val (Some node) v c;
          c2 \<leftarrow> move_to_front node c1;
          Some (True, c2)
        }
      | None \<Rightarrow> do {
          c1 \<leftarrow> (if lru_size c \<ge> capacity c then evict_lru c else Some c);
          c2 \<leftarrow> link_new_node k v c1;
          Some (True, c2)
        })"

definition lru_remove :: "LRUCache \<Rightarrow> string \<Rightarrow> (bool \<times> LRUCache) option" where
  "lru_remove c k =
     (case map_of (cache_map c) k of
        None \<Rightarrow> Some (False, c)
      | Some node \<Rightarrow> do {
          c1 \<leftarrow> (if Some node = head c
                 then do {
                   n \<leftarrow> node_at c (Some node);
                   let c' = c\<lparr>head := nxt n\<rparr>;
                   (if head c' \<noteq> None then set_prev (head c') None c' else Some (c'\<lparr>tail := None\<rparr>))
                 }
                 else if Some node = tail c
                 then do {
                   n \<leftarrow> node_at c (Some node);
                   let c' = c\<lparr>tail := prev n\<rparr>;
                   (if tail c' \<noteq> None then set_next (tail c') None c' else Some c')
                 }
                 else do {
                   n \<leftarrow> node_at c (Some node);
                   c' \<leftarrow> set_next (prev n) (nxt n) c;
                   n' \<leftarrow> node_at c' (Some node);
                   set_prev (nxt n') (prev n') c'
                 });
          Some (True, delete_node node (c1\<lparr>cache_map := AList.delete k (cache_map c1)\<rparr>))
        })"

subsection \<open>Sequences of cache operations\<close>

text \<open>A run of operations on a new cache; it is \<open>None\<close> as soon as one operation is
  undefined.\<close>

datatype lru_op = Get string | Put string string | Remove string

fun lru_step :: "LRUCache \<Rightarrow> lru_op \<Rightarrow> LRUCache option" where
  "lru_step c (Get k) = map_option snd (lru_get c k)"
| "lru_step c (Put k v) = map_option snd (lru_put c k v)"
| "lru_step c (Remove k) = map_option snd (lru_remove c k)"

fun lru_run_from :: "LRUCache \<Rightarrow> lru_op list \<Rightarrow> LRUCache option" where
  "lru_run_from c [] = Some c"
| "lru_run_from c (x # xs) = (case lru_step c x of None \<Rightarrow> None | Some c' \<Rightarrow> lru_run_from c' xs)"

definition lru_run :: "nat \<Rightarrow> lru_op list \<Rightarrow> LRUCache option" where
  "lru_run cap ops = lru_run_from (LRUCache_new cap) ops"

subsection \<open>The list of entries and the class invariant\<close>

text \<open>
  \<open>chain\<close> follows the \<open>next\<close> pointers from \<open>head_\<close> (there are no more nodes on the way than
  the heap holds); \<open>entries\<close> are the keys and values met, most recent first.
\<close>

fun walk :: "LRUCache \<Rightarrow> nat \<Rightarrow> addr option \<Rightarrow> addr list" where
  "walk c 0 p = []"
| "walk c (Suc fuel) p =
     (case node_at c p of None \<Rightarrow> [] | Some n \<Rightarrow> the p # walk c fuel (nxt n))"

definition chain :: "LRUCache \<Rightarrow> addr list" where
  "chain c = walk c (length (heap c)) (head c)"

definition entries :: "LRUCache \<Rightarrow> (string \<times> string) list" where
  "entries c = map (\<lambda>a. case node_at c (Some a) of Some n \<Rightarrow> (key n, val n) | None \<Rightarrow> ([], [])) (chain c)"


definition payload :: "LRUCache \<Rightarrow> addr \<Rightarrow> (string \<times> string) option" where
  "payload c a = map_option (\<lambda>n. (key n, val n)) (map_of (heap c) a)"

text \<open>
  \<open>dseg m p as q\<close>: the nodes at the addresses \<open>as\<close> are linked to each other in this
  order, the first has the predecessor \<open>p\<close> and the last the successor \<open>q\<close>.
  \<open>linked c as\<close> is the invariant of the class for the list \<open>as\<close> of addresses: the nodes are
  linked from \<open>head_\<close> to \<open>tail_\<close>, and the map knows exactly their keys.
\<close>

fun dseg :: "(addr \<Rightarrow> Node option) \<Rightarrow> addr option \<Rightarrow> addr list \<Rightarrow> addr option \<Rightarrow> bool" where
  "dseg m p [] q = True"
| "dseg m p (a # as) q =
     (case m a of
        None \<Rightarrow> False
      | Some n \<Rightarrow> prev n = p \<and> nxt n = (case as of [] \<Rightarrow> q | b # _ \<Rightarrow> Some b) \<and>
                  dseg m (Some a) as q)"

definition linked :: "LRUCache \<Rightarrow> addr list \<Rightarrow> bool" where
  "linked c as \<longleftrightarrow>
     distinct as \<and>
     dseg (map_of (heap c)) None as None \<and>
     head c = (case as of [] \<Rightarrow> None | a # _ \<Rightarrow> Some a) \<and>
     tail c = (if as = [] then None else Some (last as)) \<and>
     (\<forall>a \<in> set as. a < next_free c) \<and>
     distinct (map fst (cache_map c)) \<and>
     length (cache_map c) = length as \<and>
     (\<forall>k a. map_of (cache_map c) k = Some a \<longleftrightarrow> a \<in> set as \<and> map_option fst (payload c a) = Some k)"


text \<open>\<open>relinked c c'\<close>: the two caches differ in the pointers of their nodes at most.\<close>

definition relinked :: "LRUCache \<Rightarrow> LRUCache \<Rightarrow> bool" where
  "relinked c c' \<longleftrightarrow>
     cache_map c' = cache_map c \<and> capacity c' = capacity c \<and> next_free c' = next_free c \<and>
     (\<forall>a. payload c' a = payload c a)"

text \<open>A put that finds the cache full with a single entry, which is not the key put:
  \<open>evict_lru\<close> then deletes the only node.\<close>

definition evicts_only_node :: "LRUCache \<Rightarrow> string \<Rightarrow> bool" where
  "evicts_only_node c k \<longleftrightarrow>
     map_of (entries c) k = None \<and> capacity c \<le> length (entries c) \<and> length (entries c) = 1"

definition wf_cache :: "LRUCache \<Rightarrow> bool" where
  "wf_cache c = linked c (chain c)"


text \<open>What one operation does to the list of entries, as the specification has it.\<close>

fun abs_step :: "nat \<Rightarrow> (string \<times> string) list \<Rightarrow> lru_op \<Rightarrow> (string \<times> string) list" where
  "abs_step cap xs (Get k) =
     (case map_of xs k of None \<Rightarrow> xs | Some v \<Rightarrow> (k, v) # filter (\<lambda>e. fst e \<noteq> k) xs)"
| "abs_step cap xs (Put k v) =
     (k, v) # (case map_of xs k of
                 Some _ \<Rightarrow> filter (\<lambda>e. fst e \<noteq> k) xs
               | None \<Rightarrow> if cap \<le> length xs then butlast xs else xs)"
| "abs_step cap xs (Remove k) = filter (\<lambda>e. fst e \<noteq> k) xs"

subsection \<open>The time of the last access\<close>

fun touches :: "lru_op \<Rightarrow> string \<Rightarrow> bool" where
  "touches (Get k') k = (k' = k)"
| "touches (Put k' v) k = (k' = k)"
| "touches (Remove k') k = False"

text \<open>The position (counted from 1) of the last \<open>get\<close> or \<open>put\<close> of a key in a
  history of operations, 0 when there is none: the time of its most recent access.\<close>

fun last_access :: "lru_op list \<Rightarrow> string \<Rightarrow> nat" where
  "last_access [] k = 0"
| "last_access (x # xs) k =
     (let r = last_access xs k
      in if r > 0 then Suc r else if touches x k then 1 else 0)"

definition more_recent :: "lru_op list \<Rightarrow> string \<times> string \<Rightarrow> string \<times> string \<Rightarrow> bool" where
  "more_recent ops a b = (last_access ops (fst b) < last_access ops (fst a))"

section \<open>Bytes and strings of the C++ standard library\<close>

abbreviation CR :: char where "CR \<equiv> CHR 0x0D"
abbreviation LF :: char where "LF \<equiv> CHR 0x0A"
abbreviation CRLF :: string where "CRLF \<equiv> [CR, LF]"

text \<open>\<open>std::string::find("\r\n")\<close>: the first position of the two bytes, \<open>None\<close> for
  \<open>npos\<close>.\<close>

fun find_crlf :: "string \<Rightarrow> nat option" where
  "find_crlf (a # b # r) =
     (if a = CR \<and> b = LF then Some 0 else map_option Suc (find_crlf (b # r)))"
| "find_crlf _ = None"

definition isspace :: "char \<Rightarrow> bool" where
  "isspace c = (c \<in> set [CHR '' '', CHR 0x09, LF, CHR 0x0B, CHR 0x0C, CR])"

definition isdigit :: "char \<Rightarrow> bool" where
  "isdigit c = (48 \<le> (of_char c :: nat) \<and> (of_char c :: nat) \<le> 57)"

definition toupper :: "char \<Rightarrow> char" where
  "toupper c = (if 97 \<le> (of_char c :: nat) \<and> (of_char c :: nat) \<le> 122
                then char_of ((of_char c :: nat) - 32) else c)"

text \<open>\<open>std::to_string\<close> of an unsigned length.\<close>

fun to_string :: "nat \<Rightarrow> string" where
  "to_string n =
     (if n < 10 then [char_of (48 + n)]
      else to_string (n div 10) @ [char_of (48 + n mod 10)])"

declare to_string.simps [simp del]

definition digits_val :: "string \<Rightarrow> nat" where
  "digits_val ds = foldl (\<lambda>a c. 10 * a + ((of_char c :: nat) - 48)) 0 ds"

text \<open>\<open>std::stoi\<close>: leading white space is skipped, a sign is optional, the longest run of
  decimal digits is converted and what follows is ignored. With no digit it throws
  \<open>std::invalid_argument\<close>, with a value outside \<open>int\<close> it throws \<open>std::out_of_range\<close>;
  both are \<open>None\<close> here.\<close>

definition stoi :: "string \<Rightarrow> int option" where
  "stoi s =
     (let s1 = dropWhile isspace s;
          neg = (s1 \<noteq> [] \<and> hd s1 = CHR ''-'');
          s2 = (if s1 \<noteq> [] \<and> (hd s1 = CHR ''-'' \<or> hd s1 = CHR ''+'') then tl s1 else s1);
          ds = takeWhile isdigit s2;
          v = (if neg then - int (digits_val ds) else int (digits_val ds))
      in if ds = [] then None
         else if v < - (2 ^ 31) \<or> 2 ^ 31 - 1 < v then None
         else Some v)"

text \<open>\<open>iss >> token\<close> on a \<open>std::istringstream\<close>: skip white space, then take the bytes up
  to the next white space. The result is the token and what is left of the stream; at
  the end of the stream the token stays empty.\<close>

definition read_token :: "string \<Rightarrow> string \<times> string" where
  "read_token s =
     (let s1 = dropWhile isspace s
      in (takeWhile (\<lambda>c. \<not> isspace c) s1, dropWhile (\<lambda>c. \<not> isspace c) s1))"

text \<open>The lines that a loop of \<open>std::getline\<close> reads from a file: a last line without a
  line feed is read as well, unless it is empty.\<close>

fun getlines :: "string \<Rightarrow> string \<Rightarrow> string list" where
  "getlines cur [] = (if cur = [] then [] else [cur])"
| "getlines cur (c # cs) = (if c = LF then cur # getlines [] cs else getlines (cur @ [c]) cs)"




section \<open>The storage engine of the server (part-b/src/storage_engine.h)\<close>

subsection \<open>DiskStorage\<close>

text \<open>
  \<open>data_\<close> is a hash map; the model keeps it as an association list with distinct keys,
  in which \<open>data_[key] = value\<close> replaces in place or appends. \<open>data_file\<close> is the content of
  \<open>disk_storage/data.txt\<close>, which is assumed to open. \<open>save_data\<close> truncates the file and
  writes one line \<open>key=value\<close> per entry; \<open>load_data\<close> reads it back line by line and splits
  each line at its first \<open>=\<close>.

  The language leaves the order open in which \<open>save_data\<close> iterates over the hash map.
  The model writes the lines in the order of the list, which is one of the possible
  orders; with a single entry there is no other. What is stated below about a file of
  several entries is stated up to the order of its lines.
\<close>

record DiskStorage =
  data :: "(string \<times> string) list"
  data_file :: string

definition save_data :: "(string \<times> string) list \<Rightarrow> string" where
  "save_data d = concat (map (\<lambda>(k, v). k @ ''='' @ v @ [LF]) d)"

definition load_line :: "(string \<times> string) list \<Rightarrow> string \<Rightarrow> (string \<times> string) list" where
  "load_line d line =
     (if CHR ''='' \<in> set line
      then AList.update (takeWhile (\<lambda>c. c \<noteq> CHR ''='') line)
                        (drop 1 (dropWhile (\<lambda>c. c \<noteq> CHR ''='') line)) d
      else d)"

definition load_data :: "string \<Rightarrow> (string \<times> string) list" where
  "load_data f = foldl load_line [] (getlines [] f)"

definition DiskStorage_new :: "string \<Rightarrow> DiskStorage" where
  "DiskStorage_new f = \<lparr>data = load_data f, data_file = f\<rparr>"

definition disk_get :: "DiskStorage \<Rightarrow> string \<Rightarrow> string option" where
  "disk_get d k = map_of (data d) k"

definition disk_put :: "DiskStorage \<Rightarrow> string \<Rightarrow> string \<Rightarrow> DiskStorage" where
  "disk_put d k v =
     (let d' = AList.update k v (data d) in \<lparr>data = d', data_file = save_data d'\<rparr>)"

definition disk_remove :: "DiskStorage \<Rightarrow> string \<Rightarrow> DiskStorage" where
  "disk_remove d k =
     (let d' = AList.delete k (data d) in \<lparr>data = d', data_file = save_data d'\<rparr>)"

subsection \<open>StorageEngine\<close>

text \<open>
  The engine owns the cache, the disk storage, the queue of pending writes and the flag
  \<open>running_\<close> of the writer thread. One turn of the loop of the thread has two steps,
  between which the calls of the engine may run: under the lock of the queue it takes
  the front pair off (\<open>worker_pop\<close>), and after it has released the lock it puts the pair
  into the disk storage (\<open>worker_write\<close>). \<open>in_flight\<close> is the pair the thread holds in
  between. A function that calls the cache is \<open>None\<close> when the cache runs into undefined
  behaviour.
\<close>

record StorageEngine =
  cache :: LRUCache
  disk_storage :: DiskStorage
  write_queue :: "(string \<times> string) list"
  in_flight :: "(string \<times> string) option"
  running :: bool

definition StorageEngine_new :: "nat \<Rightarrow> string \<Rightarrow> StorageEngine" where
  "StorageEngine_new cache_size f =
     \<lparr>cache = LRUCache_new cache_size, disk_storage = DiskStorage_new f,
      write_queue = [], in_flight = None, running = True\<rparr>"

definition put :: "StorageEngine \<Rightarrow> string \<Rightarrow> string \<Rightarrow> (bool \<times> StorageEngine) option" where
  "put e k v = do {
     (ok, c) \<leftarrow> lru_put (cache e) k v;
     Some (if ok then (True, e\<lparr>cache := c, write_queue := write_queue e @ [(k, v)]\<rparr>)
           else (True, e\<lparr>cache := c, disk_storage := disk_put (disk_storage e) k v\<rparr>))
   }"

definition set_kv :: "StorageEngine \<Rightarrow> string \<Rightarrow> string \<Rightarrow> (bool \<times> StorageEngine) option" where
  "set_kv e k v = put e k v"

text \<open>\<open>bool get(key, value&)\<close>: the cache first, then the disk storage, whose hit is
  entered in the cache.\<close>

definition get_ref :: "StorageEngine \<Rightarrow> string \<Rightarrow> (string option \<times> StorageEngine) option" where
  "get_ref e k = do {
     (hit, c) \<leftarrow> lru_get (cache e) k;
     (case hit of
        Some v \<Rightarrow> Some (Some v, e\<lparr>cache := c\<rparr>)
      | None \<Rightarrow>
          (case disk_get (disk_storage e) k of
             Some v \<Rightarrow> do {
               (ok, c') \<leftarrow> lru_put c k v;
               Some (Some v, e\<lparr>cache := c'\<rparr>)
             }
           | None \<Rightarrow> Some (None, e\<lparr>cache := c\<rparr>)))
   }"

text \<open>\<open>std::string get(key)\<close>: the value, or the empty string when there is none.\<close>

definition get :: "StorageEngine \<Rightarrow> string \<Rightarrow> (string \<times> StorageEngine) option" where
  "get e k = do {
     (found, e') \<leftarrow> get_ref e k;
     Some (case found of Some v \<Rightarrow> v | None \<Rightarrow> [], e')
   }"

definition del :: "StorageEngine \<Rightarrow> string \<Rightarrow> (bool \<times> StorageEngine) option" where
  "del e k = do {
     (hit, c) \<leftarrow> lru_get (cache e) k;
     c' \<leftarrow> (if hit \<noteq> None then map_option snd (lru_remove c k) else Some c);
     let on_disk = (disk_get (disk_storage e) k \<noteq> None);
     let d' = (if on_disk then disk_remove (disk_storage e) k else disk_storage e);
     Some (hit \<noteq> None \<or> on_disk, e\<lparr>cache := c', disk_storage := d'\<rparr>)
   }"

text \<open>\<open>clear\<close> builds a new cache and a new \<open>DiskStorage\<close>, which loads the file as it is;
  the old \<open>DiskStorage\<close> is destroyed afterwards and its destructor saves its entries.\<close>

definition clear :: "StorageEngine \<Rightarrow> StorageEngine" where
  "clear e =
     e\<lparr>cache := LRUCache_new (capacity (cache e)),
       disk_storage := \<lparr>data = load_data (data_file (disk_storage e)),
                        data_file = save_data (data (disk_storage e))\<rparr>\<rparr>"

definition force_flush :: "StorageEngine \<Rightarrow> StorageEngine" where
  "force_flush e =
     e\<lparr>disk_storage := foldl (\<lambda>d (k, v). disk_put d k v) (disk_storage e) (write_queue e),
       write_queue := []\<rparr>"

definition sync :: "StorageEngine \<Rightarrow> StorageEngine" where
  "sync e = force_flush e"

text \<open>The first step of a turn of the writer thread: while the engine runs and the
  queue is not empty, the front pair is taken off the queue.\<close>

definition worker_pop :: "StorageEngine \<Rightarrow> StorageEngine" where
  "worker_pop e =
     (if running e \<and> in_flight e = None then
        (case write_queue e of
           [] \<Rightarrow> e
         | kv # q \<Rightarrow> e\<lparr>write_queue := q, in_flight := Some kv\<rparr>)
      else e)"

text \<open>The second step: the pair taken off is put into the disk storage.\<close>

definition worker_write :: "StorageEngine \<Rightarrow> StorageEngine" where
  "worker_write e =
     (case in_flight e of
        None \<Rightarrow> e
      | Some (k, v) \<Rightarrow> e\<lparr>in_flight := None, disk_storage := disk_put (disk_storage e) k v\<rparr>)"

text \<open>A whole turn of the loop, with no call of the engine between its two steps.\<close>

definition async_write_worker :: "StorageEngine \<Rightarrow> StorageEngine" where
  "async_write_worker e = worker_write (worker_pop e)"

text \<open>\<open>stop_async_writer\<close> clears the flag and joins the thread, which finishes the turn
  it is in.\<close>

definition stop_async_writer :: "StorageEngine \<Rightarrow> StorageEngine" where
  "stop_async_writer e = (worker_write e)\<lparr>running := False\<rparr>"

text \<open>A restart of the process: the destructor of the engine stops the writer and that
  of the disk storage saves its entries; the new process loads the file into a new
  engine with an empty cache and an empty queue.\<close>

definition restart :: "StorageEngine \<Rightarrow> StorageEngine" where
  "restart e =
     StorageEngine_new (capacity (cache e))
       (save_data (data (disk_storage (stop_async_writer e))))"

section \<open>The server (part-b/src/network_server.cpp)\<close>

record Server =
  storage :: StorageEngine
  should_stop :: bool

definition Server_new :: "string \<Rightarrow> Server" where
  "Server_new f = \<lparr>storage = StorageEngine_new 1 f, should_stop = False\<rparr>"

definition nil_reply :: string where
  "nil_reply = ''$-1'' @ CRLF"

definition bulk :: "string \<Rightarrow> string" where
  "bulk v = ''$'' @ to_string (length v) @ CRLF @ v @ CRLF"

text \<open>The reply of \<open>process_command\<close> to GET, from the string the engine returned.\<close>

definition get_reply :: "string \<Rightarrow> string" where
  "get_reply v = (if v = [] then nil_reply else bulk v)"

definition err_args :: "string \<Rightarrow> string" where
  "err_args name =
     ''-ERR wrong number of arguments for '' @ [CHR 0x27] @ name @ [CHR 0x27] @ '' command'' @ CRLF"

definition process_command :: "Server \<Rightarrow> string \<Rightarrow> (string \<times> Server) option" where
  "process_command srv command =
     (let (cmd, r1) = read_token command;
          upper_cmd = map toupper cmd
      in if upper_cmd = ''PING'' then Some (''+PONG'' @ CRLF, srv)
         else if upper_cmd = ''SET'' then
           (let (k, r2) = read_token r1; (v, r3) = read_token r2
            in if k = [] \<or> v = [] then Some (err_args ''set'', srv)
               else do {
                 (ok, e) \<leftarrow> set_kv (storage srv) k v;
                 Some (if ok then (''+OK'' @ CRLF, srv\<lparr>storage := e\<rparr>)
                       else (''-ERR invalid key or value'' @ CRLF, srv\<lparr>storage := e\<rparr>))
               })
         else if upper_cmd = ''GET'' then
           (let (k, r2) = read_token r1
            in if k = [] then Some (err_args ''get'', srv)
               else do {
                 (v, e) \<leftarrow> get (storage srv) k;
                 Some (get_reply v, srv\<lparr>storage := e\<rparr>)
               })
         else if upper_cmd = ''DEL'' then
           (let (k, r2) = read_token r1
            in if k = [] then Some (err_args ''del'', srv)
               else do {
                 (existed, e) \<leftarrow> del (storage srv) k;
                 Some ((if existed then '':1'' else '':0'') @ CRLF, srv\<lparr>storage := e\<rparr>)
               })
         else if upper_cmd = ''CLEAR'' \<or> upper_cmd = ''FLUSHALL'' \<or> upper_cmd = ''FLUSHDB'' then
           Some (''+OK'' @ CRLF, srv\<lparr>storage := clear (storage srv)\<rparr>)
         else if upper_cmd = ''EXIT'' then
           Some (''+OK'' @ CRLF, srv\<lparr>should_stop := True, storage := stop_async_writer (storage srv)\<rparr>)
         else Some (''-ERR unknown command '' @ [CHR 0x27] @ cmd @ [CHR 0x27] @ CRLF, srv))"

subsection \<open>Reading requests from the connection buffer\<close>

text \<open>\<open>int\<close> addition as the machine does it, and the conversion of an \<open>int\<close> to
  \<open>size_t\<close>.\<close>

definition int_wrap :: "int \<Rightarrow> int" where
  "int_wrap i = (i + 2 ^ 31) mod 2 ^ 32 - 2 ^ 31"

definition size_t_of :: "int \<Rightarrow> nat" where
  "size_t_of i = nat (i mod 2 ^ 64)"

datatype args_result = Complete "string list" string | Incomplete string | Throw

text \<open>
  The \<open>for\<close> loop over the announced number of arguments. Each turn cuts the header
  line \<open>$<len>\<close> off the buffer before it knows whether the argument is complete.
  \<open>Incomplete\<close> carries the buffer as the loop leaves it; \<open>Throw\<close> is an exception of
  \<open>std::stoi\<close>, which nothing in the server catches.
\<close>

fun parse_args :: "nat \<Rightarrow> string \<Rightarrow> string list \<Rightarrow> args_result" where
  "parse_args 0 buf args = Complete args buf"
| "parse_args (Suc n) buf args =
     (case find_crlf buf of
        None \<Rightarrow> Incomplete buf
      | Some pos \<Rightarrow>
          (let line = take pos buf; buf1 = drop (pos + 2) buf
           in if line = [] \<or> hd line \<noteq> CHR ''$'' then Incomplete buf1
              else (case stoi (tl line) of
                      None \<Rightarrow> Throw
                    | Some len \<Rightarrow>
                        if len < 0 then parse_args n buf1 (args @ [[]])
                        else if length buf1 < size_t_of (int_wrap (len + 2)) then Incomplete buf1
                        else parse_args n (drop (size_t_of (int_wrap (len + 2))) buf1)
                               (args @ [take (nat len) buf1]))))"

fun join_args :: "string list \<Rightarrow> string" where
  "join_args [] = []"
| "join_args (a # as) = a @ concat (map (\<lambda>x. CHR '' '' # x) as)"

datatype iteration = Break string | Uncaught | Undefined | Next Server string "string list"

text \<open>
  One turn of the loop \<open>while (true)\<close> of \<open>handle_client_data\<close>: \<open>Break\<close> leaves the loop
  with the buffer as it then is, \<open>Uncaught\<close> is an exception leaving the function,
  \<open>Undefined\<close> is undefined behaviour in the cache, and \<open>Next\<close> carries the server, the
  buffer and the replies written to the socket (writes are assumed to succeed).
\<close>

definition loop_body :: "Server \<Rightarrow> string \<Rightarrow> iteration" where
  "loop_body srv buf =
     (case find_crlf buf of
        None \<Rightarrow> Break buf
      | Some pos \<Rightarrow>
          (let line = take pos buf; buf1 = drop (pos + 2) buf
           in if line = [] then Next srv buf1 []
              else if hd line = CHR ''*'' then
                (case stoi (tl line) of
                   None \<Rightarrow> Uncaught
                 | Some num_args \<Rightarrow>
                     (case parse_args (nat num_args) buf1 [] of
                        Throw \<Rightarrow> Uncaught
                      | Incomplete b \<Rightarrow> Break b
                      | Complete args b \<Rightarrow>
                          if args = [] then Next srv b []
                          else (case process_command srv (join_args args) of
                                  None \<Rightarrow> Undefined
                                | Some (response, srv') \<Rightarrow> Next srv' b [response])))
              else (case process_command srv line of
                      None \<Rightarrow> Undefined
                    | Some (response, srv') \<Rightarrow> Next srv' buf1 [response])))"

lemma find_crlf_bound: "find_crlf buf = Some pos \<Longrightarrow> pos + 2 \<le> length buf"
  by (induction buf arbitrary: pos rule: find_crlf.induct) (auto split: if_splits)

lemma parse_args_Complete_length:
  "parse_args n buf args = Complete as b \<Longrightarrow> length b \<le> length buf"
proof (induction n arbitrary: buf args)
  case 0
  then show ?case by simp
next
  case (Suc n)
  then show ?case
    by (fastforce simp: Let_def split: option.splits if_splits)
qed

lemma loop_body_Next_shorter:
  "loop_body srv buf = Next srv' b rs \<Longrightarrow> length b < length buf"
  by (auto simp: loop_body_def Let_def
           split: option.splits if_splits args_result.splits prod.splits
           dest!: find_crlf_bound parse_args_Complete_length)

text \<open>How the processing of a buffer ends: the connection waits for more bytes with
  what is left in its buffer, the process is terminated by an uncaught exception, or
  the behaviour is undefined.\<close>

datatype outcome = Waiting string | Terminated | Undefined_behaviour

text \<open>The loop \<open>while (true)\<close>: the replies written, the server, and how it ended.\<close>

function process_buffer :: "Server \<Rightarrow> string \<Rightarrow> string list \<times> Server \<times> outcome" where
  "process_buffer srv buf =
     (case loop_body srv buf of
        Break b \<Rightarrow> ([], srv, Waiting b)
      | Uncaught \<Rightarrow> ([], srv, Terminated)
      | Undefined \<Rightarrow> ([], srv, Undefined_behaviour)
      | Next srv' b rs \<Rightarrow>
          (case process_buffer srv' b of (rs', srv'', b') \<Rightarrow> (rs @ rs', srv'', b')))"
  by pat_completeness auto
termination
  by (relation "measure (\<lambda>(srv, buf). length buf)") (auto dest: loop_body_Next_shorter)

declare process_buffer.simps [simp del]

text \<open>
  One \<open>read(client_fd, buffer, sizeof(buffer))\<close> with \<open>char buffer[4096]\<close>: of the bytes the
  socket holds it takes the first 4096 at most and leaves the others in the socket.
\<close>

definition read_bytes :: "string \<Rightarrow> string \<times> string" where
  "read_bytes avail =
     (if length avail \<le> 4096 then (avail, []) else (take 4096 avail, drop 4096 avail))"

text \<open>
  The loop over \<open>read\<close>. A chunk is what the socket holds when the connection becomes
  readable. The bytes of one \<open>read\<close> are appended to the buffer of the connection and the
  buffer is processed; what the chunk holds beyond them is taken by the next \<open>read\<close>.
\<close>

function handle_client_data ::
  "Server \<Rightarrow> string \<Rightarrow> string list \<Rightarrow> string list \<times> Server \<times> outcome" where
  "handle_client_data srv buf [] = ([], srv, Waiting buf)"
| "handle_client_data srv buf (chunk # chunks) =
     (case read_bytes chunk of
        (bytes, left) \<Rightarrow>
          (case process_buffer srv (buf @ bytes) of
             (rs, srv', Waiting b) \<Rightarrow>
               (case handle_client_data srv' b (if left = [] then chunks else left # chunks) of
                  (rs', srv'', b') \<Rightarrow> (rs @ rs', srv'', b'))
           | (rs, srv', stopped) \<Rightarrow> (rs, srv', stopped)))"
  by pat_completeness auto
termination
  by (relation "measure (\<lambda>(srv, buf, chunks). length (concat chunks) + length chunks)")
     (auto simp: read_bytes_def split: if_splits)

text \<open>The request a client sends (\<open>BenchmarkClient::send_command\<close>, part-b/benchmark.cpp).\<close>

definition resp_command :: "string list \<Rightarrow> string" where
  "resp_command args =
     ''*'' @ to_string (length args) @ CRLF @
     concat (map bulk args)"

text \<open>The server after \<open>n\<close> turns of the writer thread.\<close>

definition worker_turns :: "nat \<Rightarrow> Server \<Rightarrow> Server" where
  "worker_turns n srv = srv\<lparr>storage := (async_write_worker ^^ n) (storage srv)\<rparr>"

section \<open>The storage engine with the binary log (part-a/src/storage_engine.cpp)\<close>

text \<open>
  This engine keeps the values in the hash map \<open>data_\<close> (here \<open>data_a\<close>, an association
  list), the order of access in \<open>access_order\<close>, and for every key written the offset and
  size of its last record in \<open>disk_index\<close>. \<open>data_dat\<close> is the content of the file
  \<open>disk_storage/data.dat\<close>, which is assumed to open; a record starts where the file
  ended before the write. The sidecar file \<open>index.dat\<close>, rewritten by \<open>save_disk_index\<close>
  and read only by the constructor, is not part of the model.
\<close>

record StorageEngineA =
  data_a :: "(string \<times> string) list"
  access_order :: "string list"
  pending_writes :: nat
  disk_index :: "(string \<times> nat \<times> nat) list"
  write_buffer :: "(string \<times> string) list"
  data_dat :: string

definition MAX_KEY_SIZE :: nat where "MAX_KEY_SIZE = 256"
definition MAX_VALUE_SIZE :: nat where "MAX_VALUE_SIZE = 1024"
definition MAX_CACHE_SIZE :: nat where "MAX_CACHE_SIZE = 10000000"

text \<open>The four bytes of a \<open>uint32_t\<close> in memory, least significant first, and the
  number that bytes in this order stand for.\<close>

definition u32_bytes :: "nat \<Rightarrow> string" where
  "u32_bytes n = [char_of n, char_of (n div 256), char_of (n div 65536), char_of (n div 16777216)]"

definition u32_of :: "string \<Rightarrow> nat" where
  "u32_of bs = foldr (\<lambda>c a. of_char c + 256 * a) bs 0"

text \<open>\<open>infile.read\<close> of \<open>n\<close> bytes at a position: \<open>None\<close> when the file ends before, which
  sets the fail bit of the stream.\<close>

definition read_at :: "string \<Rightarrow> nat \<Rightarrow> nat \<Rightarrow> string option" where
  "read_at f pos n = (if pos + n \<le> length f then Some (take n (drop pos f)) else None)"

text \<open>The bytes that \<open>flush_write_buffer\<close> writes for one entry. The lengths are stored in
  \<open>uint32_t\<close> variables, and as many bytes are written as these say.\<close>

definition write_record :: "string \<Rightarrow> string \<Rightarrow> string" where
  "write_record k v =
     (let key_len = length k mod 2 ^ 32; value_len = length v mod 2 ^ 32
      in u32_bytes key_len @ take key_len k @ u32_bytes value_len @ take value_len v)"

definition update_disk_index :: "StorageEngineA \<Rightarrow> string \<Rightarrow> nat \<Rightarrow> nat \<Rightarrow> StorageEngineA" where
  "update_disk_index s k offset sz = s\<lparr>disk_index := AList.update k (offset, sz) (disk_index s)\<rparr>"

definition remove_from_disk_index :: "StorageEngineA \<Rightarrow> string \<Rightarrow> StorageEngineA" where
  "remove_from_disk_index s k = s\<lparr>disk_index := AList.delete k (disk_index s)\<rparr>"

definition flush_entry :: "StorageEngineA \<Rightarrow> string \<times> string \<Rightarrow> StorageEngineA" where
  "flush_entry s entry =
     (let offset = length (data_dat s);
          rec = write_record (fst entry) (snd entry)
      in update_disk_index (s\<lparr>data_dat := data_dat s @ rec\<rparr>) (fst entry) offset (length rec))"

definition flush_write_buffer :: "StorageEngineA \<Rightarrow> StorageEngineA" where
  "flush_write_buffer s =
     (if write_buffer s = [] then s
      else (foldl flush_entry s (write_buffer s))\<lparr>write_buffer := [], pending_writes := 0\<rparr>)"

fun evict_oldest :: "nat \<Rightarrow> StorageEngineA \<Rightarrow> StorageEngineA" where
  "evict_oldest 0 s = s"
| "evict_oldest (Suc n) s =
     (case access_order s of
        [] \<Rightarrow> s
      | oldest_key # rest \<Rightarrow>
          evict_oldest n (s\<lparr>access_order := rest, data_a := AList.delete oldest_key (data_a s)\<rparr>))"

definition set_a :: "StorageEngineA \<Rightarrow> string \<Rightarrow> string \<Rightarrow> bool \<times> StorageEngineA" where
  "set_a s k v =
     (let s1 = s\<lparr>data_a := AList.update k v (data_a s),
                 access_order := access_order s @ [k],
                 pending_writes := pending_writes s + 1,
                 write_buffer := write_buffer s @ [(k, v)]\<rparr>;
          s2 = (if length (data_a s1) > MAX_CACHE_SIZE
                then evict_oldest (MAX_CACHE_SIZE div 5) s1 else s1)
      in (True, flush_write_buffer s2))"

text \<open>The read of a record in \<open>get\<close>, with every return of the empty string for a failed
  read or check as \<open>None\<close>.\<close>

definition read_value :: "string \<Rightarrow> nat \<Rightarrow> string \<Rightarrow> string option" where
  "read_value f offset k =
     (case read_at f offset 4 of
        None \<Rightarrow> None
      | Some kb \<Rightarrow>
          (let key_len = u32_of kb
           in if key_len > MAX_KEY_SIZE then None
              else (case read_at f (offset + 4) key_len of
                      None \<Rightarrow> None
                    | Some stored_key \<Rightarrow>
                        if stored_key \<noteq> k then None
                        else (case read_at f (offset + 4 + key_len) 4 of
                                None \<Rightarrow> None
                              | Some vb \<Rightarrow>
                                  (let value_len = u32_of vb
                                   in if value_len > MAX_VALUE_SIZE then None
                                      else read_at f (offset + 4 + key_len + 4) value_len)))))"

definition get_a :: "StorageEngineA \<Rightarrow> string \<Rightarrow> string \<times> StorageEngineA" where
  "get_a s k =
     (case map_of (data_a s) k of
        Some v \<Rightarrow> (v, s\<lparr>access_order := removeAll k (access_order s) @ [k]\<rparr>)
      | None \<Rightarrow>
          (case map_of (disk_index s) k of
             None \<Rightarrow> ([], s)
           | Some entry \<Rightarrow>
               (case read_value (data_dat s) (fst entry) k of
                  None \<Rightarrow> ([], s)
                | Some v \<Rightarrow>
                    (v, s\<lparr>data_a := AList.update k v (data_a s),
                          access_order := access_order s @ [k]\<rparr>))))"

definition del_a :: "StorageEngineA \<Rightarrow> string \<Rightarrow> bool \<times> StorageEngineA" where
  "del_a s k =
     (if map_of (data_a s) k = None \<and> map_of (disk_index s) k = None then (False, s)
      else (True, remove_from_disk_index
                    (s\<lparr>data_a := AList.delete k (data_a s),
                       access_order := removeAll k (access_order s)\<rparr>) k))"

definition clear_a :: "StorageEngineA \<Rightarrow> StorageEngineA" where
  "clear_a s =
     s\<lparr>data_a := [], access_order := [], pending_writes := 0, write_buffer := [],
       disk_index := [], data_dat := []\<rparr>"

definition size_a :: "StorageEngineA \<Rightarrow> nat" where
  "size_a s = length (data_a s) + length (disk_index s)"

subsection \<open>The command loop (part-a/src/repl.cpp)\<close>

text \<open>
  The only program that calls this engine is the command loop of \<open>repl.cpp\<close>; the server
  of part-b includes the engine of part-b. \<open>repl_command\<close> is one turn of the loop for a
  line read from the standard input: what the turn prints after the prompt, and the
  engine afterwards; \<open>None\<close> when the turn leaves the loop. After \<open>iss >> key\<close> of SET,
  \<open>std::getline\<close> takes what is left of the line, and one leading space is cut off.
\<close>

definition repl_command :: "StorageEngineA \<Rightarrow> string \<Rightarrow> (string \<times> StorageEngineA) option" where
  "repl_command db line =
     (if line = [] then Some ([], db)
      else
        (let (command, r1) = read_token line
         in if command = ''EXIT'' then None
            else if command = ''SET'' then
              (let (k, r2) = read_token r1;
                   rest = takeWhile (\<lambda>c. c \<noteq> LF) r2;
                   v = (if rest \<noteq> [] \<and> hd rest = CHR '' '' then tl rest else rest)
               in if k = [] \<or> v = []
                  then Some (''Error: SET requires both key and value'' @ [LF], db)
                  else (let (ok, db') = set_a db k v
                        in Some ((if ok then ''OK'' else ''Error: Database is full'') @ [LF], db')))
            else if command = ''GET'' then
              (let (k, r2) = read_token r1
               in if k = [] then Some (''Error: GET requires a key'' @ [LF], db)
                  else (let (v, db') = get_a db k in Some (v @ [LF], db')))
            else if command = ''DEL'' then
              (let (k, r2) = read_token r1
               in if k = [] then Some (''Error: DEL requires a key'' @ [LF], db)
                  else (let (existed, db') = del_a db k
                        in Some ((if existed then ''OK'' else ''Error: Key does not exist'') @ [LF],
                                 db')))
            else if command = ''SIZE'' then Some (to_string (size_a db) @ [LF], db)
            else if command = ''CLEAR'' then Some (''OK'' @ [LF], clear_a db)
            else Some (''Unknown command. Type '' @ [CHR 0x27] @ ''help'' @ [CHR 0x27] @
                       '' for usage.'' @ [LF], db)))"

subsection \<open>The record format in the words of the specification\<close>

text \<open>
  A record is corrupt for a requested key when the file ends before the end of the
  record (a short read), when the stored key length exceeds 256 or the stored value
  length exceeds 1024, or when the stored key is not the requested one.
\<close>

definition corrupt_record :: "string \<Rightarrow> nat \<Rightarrow> string \<Rightarrow> bool" where
  "corrupt_record f offset k =
     (let key_len = u32_of (take 4 (drop offset f));
          stored_key = take key_len (drop (offset + 4) f);
          value_len = u32_of (take 4 (drop (offset + 4 + key_len) f))
      in length f < offset + 4 + key_len + 4 + value_len \<or>
         256 < key_len \<or> 1024 < value_len \<or> stored_key \<noteq> k)"

text \<open>
  The log decoded as a sequence of records \<open>u32 key_len | key | u32 value_len | value\<close>:
  \<open>split_record\<close> cuts the first record off, \<open>None\<close> when the bytes do not hold a whole
  record; \<open>decode_log\<close> repeats it to the end of the file.
\<close>

definition split_record :: "string \<Rightarrow> ((string \<times> string) \<times> string) option" where
  "split_record f =
     (let key_len = u32_of (take 4 f);
          value_len = u32_of (take 4 (drop (4 + key_len) f))
      in if length f < 4 + key_len + 4 + value_len then None
         else Some ((take key_len (drop 4 f), take value_len (drop (4 + key_len + 4) f)),
                    drop (4 + key_len + 4 + value_len) f))"

lemma split_record_shorter: "split_record f = Some (kv, rest) \<Longrightarrow> length rest < length f"
  by (auto simp: split_record_def Let_def split: if_splits)

function decode_log :: "string \<Rightarrow> (string \<times> string) list option" where
  "decode_log f =
     (if f = [] then Some []
      else (case split_record f of
              None \<Rightarrow> None
            | Some (kv, rest) \<Rightarrow> map_option ((#) kv) (decode_log rest)))"
  by pat_completeness auto
termination
  by (relation "measure length") (auto dest: split_record_shorter)

declare decode_log.simps [simp del]

definition StorageEngineA_new :: StorageEngineA where
  "StorageEngineA_new =
     \<lparr>data_a = [], access_order = [], pending_writes = 0, disk_index = [],
      write_buffer = [], data_dat = []\<rparr>"

text \<open>A sequence of calls of \<open>set\<close>, and the record format written out.\<close>

definition set_all :: "StorageEngineA \<Rightarrow> (string \<times> string) list \<Rightarrow> StorageEngineA" where
  "set_all s ps = foldl (\<lambda>s kv. snd (set_a s (fst kv) (snd kv))) s ps"

definition log_record :: "string \<times> string \<Rightarrow> string" where
  "log_record kv = u32_bytes (length (fst kv)) @ fst kv @ u32_bytes (length (snd kv)) @ snd kv"

text \<open>An engine whose index sends the key \<open>k\<close> to a record that holds another key, and
  one whose log ends before the last byte of the record of \<open>k\<close>; in both the key is not
  in \<open>data_\<close>, so that \<open>get\<close> has to read the record.\<close>

definition mismatch_example :: StorageEngineA where
  "mismatch_example =
     StorageEngineA_new\<lparr>disk_index := [(''k'', 0, 10)], data_dat := log_record (''x'', ''v'')\<rparr>"

definition truncated_example :: StorageEngineA where
  "truncated_example =
     StorageEngineA_new\<lparr>disk_index := [(''k'', 0, 10)], data_dat := take 9 (log_record (''k'', ''v''))\<rparr>"

section \<open>The linked list of the cache\<close>

lemma dseg_append:
  "dseg m p (as @ bs) q \<longleftrightarrow>
     dseg m p as (case bs of [] \<Rightarrow> q | b # _ \<Rightarrow> Some b) \<and>
     dseg m (case as of [] \<Rightarrow> p | _ \<Rightarrow> Some (last as)) bs q"
proof (induction as arbitrary: p)
  case Nil
  then show ?case by simp
next
  case (Cons a as)
  show ?case
    unfolding append_Cons dseg.simps(2) Cons.IH
    by (cases as) (auto split: option.splits)
qed

lemma dseg_frame:
  "a \<notin> set as \<Longrightarrow> dseg (m(a := x)) p as q = dseg m p as q"
  by (induction as arbitrary: p) (auto split: option.splits)

lemma dseg_allocated: "dseg m p as q \<Longrightarrow> a \<in> set as \<Longrightarrow> m a \<noteq> None"
  by (induction as arbitrary: p) (auto split: option.splits)

lemma dseg_set_prev_first:
  assumes "a \<notin> set as" and "m a = Some n" and "dseg m p (a # as) q"
  shows "dseg (m(a \<mapsto> n\<lparr>prev := p'\<rparr>)) p' (a # as) q"
  using assms by (simp add: dseg_frame)

lemma dseg_set_next_last:
  assumes "a \<notin> set as" and "m a = Some n" and "dseg m p (as @ [a]) q"
  shows "dseg (m(a \<mapsto> n\<lparr>nxt := q'\<rparr>)) p (as @ [a]) q'"
  using assms by (auto simp: dseg_append dseg_frame split: list.splits)

lemma dseg_payload:
  assumes "m a = Some n" and "prev n' = prev n" and "nxt n' = nxt n"
  shows "dseg (m(a \<mapsto> n')) p as q = dseg m p as q"
  using assms by (induction as arbitrary: p) (auto split: option.splits)


lemma dseg_split:
  assumes "dseg m None (bs @ node # cs) None" and "bs \<noteq> []"
  shows "dseg m None bs (Some node)"
    and "\<exists>n. m node = Some n \<and> prev n = Some (last bs) \<and>
             nxt n = (case cs of [] \<Rightarrow> None | c0 # _ \<Rightarrow> Some c0)"
    and "dseg m (Some node) cs None"
proof -
  obtain b0 bs' where bs: "bs = b0 # bs'" using assms(2) by (cases bs) auto
  have both: "dseg m None bs (Some node) \<and> dseg m (Some (last bs)) (node # cs) None"
  proof -
    from assms(1)
    have "dseg m None bs (case node # cs of [] \<Rightarrow> None | b # _ \<Rightarrow> Some b) \<and>
          dseg m (case bs of [] \<Rightarrow> None | _ \<Rightarrow> Some (last bs)) (node # cs) None"
      by (simp only: dseg_append)
    then show ?thesis by (simp only: bs list.case)
  qed
  then show "dseg m None bs (Some node)" by simp
  from both have "dseg m (Some (last bs)) (node # cs) None" by simp
  then show "\<exists>n. m node = Some n \<and> prev n = Some (last bs) \<and>
             nxt n = (case cs of [] \<Rightarrow> None | c0 # _ \<Rightarrow> Some c0)"
    and "dseg m (Some node) cs None"
    by (auto split: option.splits)
qed

lemma dseg_join:
  "bs \<noteq> [] \<Longrightarrow> cs \<noteq> [] \<Longrightarrow> dseg m p bs (Some (hd cs)) \<Longrightarrow>
   dseg m (Some (last bs)) cs q \<Longrightarrow> dseg m p (bs @ cs) q"
  using dseg_append [of m p bs cs q] by (cases bs; cases cs) simp_all

lemma dseg_Cons:
  "dseg m p (a # as) q \<Longrightarrow> \<exists>n. m a = Some n \<and> prev n = p \<and> dseg m (Some a) as q"
  by (auto split: option.splits)

declare dseg.simps [simp del]

lemma relinked_refl [simp]: "relinked c c"
  by (simp add: relinked_def)

lemma relinked_trans: "relinked c c' \<Longrightarrow> relinked c' c'' \<Longrightarrow> relinked c c''"
  by (simp add: relinked_def)

lemma node_at_simps [simp]:
  "node_at c None = None"
  "node_at c (Some a) = map_of (heap c) a"
  by (simp_all add: node_at_def)

lemma set_next_Some:
  "map_of (heap c) a = Some n \<Longrightarrow>
   set_next (Some a) x c = Some (c\<lparr>heap := AList.update a (n\<lparr>nxt := x\<rparr>) (heap c)\<rparr>)"
  by (simp add: set_next_def update_node_def)

lemma set_prev_Some:
  "map_of (heap c) a = Some n \<Longrightarrow>
   set_prev (Some a) x c = Some (c\<lparr>heap := AList.update a (n\<lparr>prev := x\<rparr>) (heap c)\<rparr>)"
  by (simp add: set_prev_def update_node_def)

lemma set_val_Some:
  "map_of (heap c) a = Some n \<Longrightarrow>
   set_val (Some a) v c = Some (c\<lparr>heap := AList.update a (n\<lparr>val := v\<rparr>) (heap c)\<rparr>)"
  by (simp add: set_val_def update_node_def)

text \<open>Linking a node that is not in the list in front of a list that is not empty.\<close>

lemma push_front:
  assumes d: "distinct (node # as)" and seg: "dseg (map_of (heap c)) None as None"
    and ne: "as \<noteq> []" and hd: "head c = Some (hd as)"
    and n: "map_of (heap c) node = Some n"
  shows "\<exists>c'. (do {
            c2 \<leftarrow> set_prev (Some node) None c;
            c3 \<leftarrow> set_next (Some node) (head c2) c2;
            c4 \<leftarrow> set_prev (head c3) (Some node) c3;
            Some (c4\<lparr>head := Some node\<rparr>)
          }) = Some c' \<and>
          dseg (map_of (heap c')) None (node # as) None \<and> head c' = Some node \<and>
          tail c' = tail c \<and> relinked c c'"
proof -
  obtain a0 as' where as: "as = a0 # as'" using ne by (cases as) auto
  from seg as obtain n0 where n0: "map_of (heap c) a0 = Some n0"
    using dseg_Cons by blast
  have neq: "a0 \<noteq> node" using d as by auto
  let ?c2 = "c\<lparr>heap := AList.update node (n\<lparr>prev := None\<rparr>) (heap c)\<rparr>"
  let ?c3 = "?c2\<lparr>heap := AList.update node (n\<lparr>prev := None, nxt := Some a0\<rparr>) (heap ?c2)\<rparr>"
  let ?c4 = "?c3\<lparr>heap := AList.update a0 (n0\<lparr>prev := Some node\<rparr>) (heap ?c3)\<rparr>"
  have s2: "set_prev (Some node) None c = Some ?c2" using n by (rule set_prev_Some)
  have s3: "set_next (Some node) (head ?c2) ?c2 = Some ?c3"
    using hd as by (subst set_next_Some [where n = "n\<lparr>prev := None\<rparr>"]) (simp_all add: update_conv')
  have s4: "set_prev (head ?c3) (Some node) ?c3 = Some ?c4"
    using hd as n0 neq by (simp add: set_prev_Some [where n = n0] update_conv')
  let ?m = "map_of (heap c)"
  have m4: "map_of (heap ?c4) = ?m(node \<mapsto> n\<lparr>prev := None, nxt := Some a0\<rparr>, a0 \<mapsto> n0\<lparr>prev := Some node\<rparr>)"
    by (simp add: update_conv')
  have "dseg (?m(node := Some (n\<lparr>prev := None, nxt := Some a0\<rparr>))) None (a0 # as') None"
    using d seg as by (simp add: dseg_frame del: dseg.simps)
  then have "dseg (?m(node \<mapsto> n\<lparr>prev := None, nxt := Some a0\<rparr>, a0 \<mapsto> n0\<lparr>prev := Some node\<rparr>)) (Some node) (a0 # as') None"
    using d as n0 neq by (intro dseg_set_prev_first) auto
  then have seg': "dseg (map_of (heap ?c4)) None (node # as) None"
    unfolding m4 using as neq by (simp add: dseg.simps(2))
  have rel: "relinked c (?c4\<lparr>head := Some node\<rparr>)"
    using n n0 by (auto simp: relinked_def payload_def update_conv')
  show ?thesis
    unfolding s2 using s3 s4 seg' rel by (simp del: dseg.simps)
qed


text \<open>Unlinking the last node of a list with at least two nodes.\<close>

lemma unlink_tail:
  assumes d: "distinct (bs @ [node])" and seg: "dseg (map_of (heap c)) None (bs @ [node]) None"
    and ne: "bs \<noteq> []" and tl: "tail c = Some node"
  shows "\<exists>c' n. (do {
            n \<leftarrow> node_at c (Some node);
            let c' = c\<lparr>tail := prev n\<rparr>;
            set_next (tail c') None c'
          }) = Some c' \<and> map_of (heap c) node = Some n \<and> prev n = Some (last bs) \<and>
          dseg (map_of (heap c')) None bs None \<and> head c' = head c \<and>
          tail c' = Some (last bs) \<and> map_of (heap c') node = Some n \<and> relinked c c'"
proof -
  obtain bs' b where bs: "bs = bs' @ [b]" using ne by (cases bs rule: rev_cases) auto
  let ?m = "map_of (heap c)"
  from dseg_split [OF seg ne] have segb: "dseg ?m None bs (Some node)"
    and "\<exists>n. ?m node = Some n \<and> prev n = Some (last bs)" by auto
  then obtain n where n: "?m node = Some n" and pn: "prev n = Some b"
    using bs by auto
  from segb bs obtain nb where nb: "?m b = Some nb"
    using dseg_allocated [of ?m None bs "Some node" b] by auto
  have neq: "b \<noteq> node" and bnot: "b \<notin> set bs'" using d bs by auto
  let ?c1 = "c\<lparr>tail := Some b, heap := AList.update b (nb\<lparr>nxt := None\<rparr>) (heap c)\<rparr>"
  have run: "(do {
            n \<leftarrow> node_at c (Some node);
            let c' = c\<lparr>tail := prev n\<rparr>;
            set_next (tail c') None c'
          }) = Some ?c1"
    using n pn nb by (simp add: set_next_Some [where n = nb])
  have "dseg (?m(b \<mapsto> nb\<lparr>nxt := None\<rparr>)) None (bs' @ [b]) None"
    using bnot nb segb bs by (intro dseg_set_next_last) auto
  then have seg1: "dseg (map_of (heap ?c1)) None bs None"
    using bs by (simp add: update_conv')
  have rel: "relinked c ?c1"
    using nb by (auto simp: relinked_def payload_def update_conv')
  have keep: "map_of (heap ?c1) node = Some n"
    using n neq by (simp add: update_conv')
  show ?thesis
    unfolding run using n pn seg1 rel keep bs by simp
qed

text \<open>Unlinking a node that has a node on either side.\<close>

lemma unlink_mid:
  assumes d: "distinct (bs @ node # cs)"
    and seg: "dseg (map_of (heap c)) None (bs @ node # cs) None"
    and ne: "bs \<noteq> []" "cs \<noteq> []"
  shows "\<exists>c' n. (do {
            n \<leftarrow> node_at c (Some node);
            c' \<leftarrow> set_next (prev n) (nxt n) c;
            n' \<leftarrow> node_at c' (Some node);
            set_prev (nxt n') (prev n') c'
          }) = Some c' \<and> map_of (heap c) node = Some n \<and>
          dseg (map_of (heap c')) None (bs @ cs) None \<and> head c' = head c \<and>
          tail c' = tail c \<and> map_of (heap c') node = Some n \<and> relinked c c'"
proof -
  obtain bs' b where bs: "bs = bs' @ [b]" using ne(1) by (cases bs rule: rev_cases) auto
  obtain c0 cs' where cs: "cs = c0 # cs'" using ne(2) by (cases cs) auto
  let ?m = "map_of (heap c)"
  from dseg_split [OF seg ne(1)] have segb: "dseg ?m None bs (Some node)"
    and segc: "dseg ?m (Some node) cs None"
    and "\<exists>n. ?m node = Some n \<and> prev n = Some (last bs) \<and>
             nxt n = (case cs of [] \<Rightarrow> None | c0 # _ \<Rightarrow> Some c0)" by auto
  then obtain n where n: "?m node = Some n" and pn: "prev n = Some b" and nn: "nxt n = Some c0"
    using bs cs by auto
  from segb bs obtain nb where nb: "?m b = Some nb"
    using dseg_allocated [of ?m None bs "Some node" b] by auto
  from segc cs obtain nc where nc: "?m c0 = Some nc"
    using dseg_allocated [of ?m "Some node" cs None c0] by auto
  have neq: "b \<noteq> node" "c0 \<noteq> node" "b \<noteq> c0" and bnot: "b \<notin> set bs'" "b \<notin> set cs"
    and cnot: "c0 \<notin> set cs'" "c0 \<notin> set bs"
    using d bs cs by auto
  let ?c1 = "c\<lparr>heap := AList.update b (nb\<lparr>nxt := Some c0\<rparr>) (heap c)\<rparr>"
  let ?c2 = "?c1\<lparr>heap := AList.update c0 (nc\<lparr>prev := Some b\<rparr>) (heap ?c1)\<rparr>"
  have run: "(do {
            n \<leftarrow> node_at c (Some node);
            c' \<leftarrow> set_next (prev n) (nxt n) c;
            n' \<leftarrow> node_at c' (Some node);
            set_prev (nxt n') (prev n') c'
          }) = Some ?c2"
    using n pn nn nb nc neq
    by (simp add: set_next_Some [where n = nb] set_prev_Some [where n = nc] update_conv')
  let ?m1 = "?m(b \<mapsto> nb\<lparr>nxt := Some c0\<rparr>)"
  let ?m2 = "?m1(c0 \<mapsto> nc\<lparr>prev := Some b\<rparr>)"
  have b1: "dseg ?m1 None (bs' @ [b]) (Some c0)"
    using bnot nb segb bs by (intro dseg_set_next_last) auto
  have c1: "dseg ?m1 (Some node) (c0 # cs') None"
    using segc cs bnot by (simp add: dseg_frame)
  have b2: "dseg ?m2 None bs (Some (hd cs))"
    using b1 bs cs cnot by (simp add: dseg_frame)
  have "dseg ?m2 (Some b) (c0 # cs') None"
    using c1 cnot nc neq by (intro dseg_set_prev_first) auto
  then have c2: "dseg ?m2 (Some (last bs)) cs None"
    using bs cs by simp
  have "dseg ?m2 None (bs @ cs) None"
    using ne b2 c2 by (rule dseg_join)
  then have seg2: "dseg (map_of (heap ?c2)) None (bs @ cs) None"
    by (simp add: update_conv')
  have rel: "relinked c ?c2"
    using nb nc by (auto simp: relinked_def payload_def update_conv')
  have keep: "map_of (heap ?c2) node = Some n"
    using n neq by (simp add: update_conv')
  show ?thesis
    unfolding run using n seg2 rel keep by simp
qed


lemma linked_relinked:
  assumes "linked c as" and "relinked c c'" and "distinct as'" and "set as' = set as"
    and "dseg (map_of (heap c')) None as' None"
    and "head c' = (case as' of [] \<Rightarrow> None | a # _ \<Rightarrow> Some a)"
    and "tail c' = (if as' = [] then None else Some (last as'))"
  shows "linked c' as'"
proof -
  have "length as' = length as"
    using assms(1,3,4) by (metis distinct_card linked_def)
  then show ?thesis
    using assms unfolding linked_def relinked_def by simp
qed

lemma linked_allocated: "linked c as \<Longrightarrow> a \<in> set as \<Longrightarrow> \<exists>n. map_of (heap c) a = Some n"
  using dseg_allocated [of "map_of (heap c)" None as None a] by (auto simp: linked_def)

lemma linked_lookup:
  "linked c as \<Longrightarrow> map_of (cache_map c) k = Some a \<Longrightarrow>
   a \<in> set as \<and> (\<exists>n. map_of (heap c) a = Some n \<and> key n = k)"
  by (auto simp: linked_def payload_def)

lemma move_to_front_linked:
  assumes i: "linked c as" and mem: "node \<in> set as"
  shows "\<exists>c'. move_to_front node c = Some c' \<and> linked c' (node # remove1 node as) \<and> relinked c c'"
proof -
  from mem obtain bs cs where as: "as = bs @ node # cs" and nb: "node \<notin> set bs"
    by (meson split_list_first)
  have d: "distinct (bs @ node # cs)" and seg: "dseg (map_of (heap c)) None (bs @ node # cs) None"
    using i as by (simp_all add: linked_def)
  have rm: "remove1 node as = bs @ cs" using as nb by (simp add: remove1_append)
  show ?thesis
  proof (cases "bs = []")
    case True
    then have "head c = Some node" using i as by (simp add: linked_def)
    then show ?thesis using i as True by (simp add: move_to_front_def rm)
  next
    case False
    then have hd: "head c = Some (hd bs)" using i as by (cases bs) (simp_all add: linked_def)
    have nh: "Some node \<noteq> head c" using hd False nb by (cases bs) auto
    show ?thesis
    proof (cases "cs = []")
      case True
      then have tl: "tail c = Some node" using i as by (simp add: linked_def)
      from unlink_tail [of bs node c] d seg False tl True
      obtain c1 n where u: "(do {
            n \<leftarrow> node_at c (Some node);
            let c' = c\<lparr>tail := prev n\<rparr>;
            set_next (tail c') None c'
          }) = Some c1"
        and seg1: "dseg (map_of (heap c1)) None bs None" and h1: "head c1 = head c"
        and t1: "tail c1 = Some (last bs)" and n1: "map_of (heap c1) node = Some n"
        and r1: "relinked c c1"
        by auto
      from push_front [of node bs c1 n] d seg1 False hd h1 n1
      obtain c' where p: "(do {
            c2 \<leftarrow> set_prev (Some node) None c1;
            c3 \<leftarrow> set_next (Some node) (head c2) c2;
            c4 \<leftarrow> set_prev (head c3) (Some node) c3;
            Some (c4\<lparr>head := Some node\<rparr>)
          }) = Some c'"
        and seg': "dseg (map_of (heap c')) None (node # bs) None" and h': "head c' = Some node"
        and t': "tail c' = tail c1" and r': "relinked c1 c'"
        by auto
      have run: "move_to_front node c = Some c'"
        unfolding move_to_front_def using nh tl u p by simp
      have "linked c' (node # bs)"
      proof (rule linked_relinked [OF i relinked_trans [OF r1 r']])
        show "distinct (node # bs)" using d by simp
        show "set (node # bs) = set as" using as True by auto
        show "dseg (map_of (heap c')) None (node # bs) None" by (rule seg')
        show "head c' = (case node # bs of [] \<Rightarrow> None | a # _ \<Rightarrow> Some a)" using h' by simp
        show "tail c' = (if node # bs = [] then None else Some (last (node # bs)))"
          using t' t1 False by simp
      qed
      then show ?thesis using run rm True relinked_trans [OF r1 r'] by simp
    next
      case cne: False
      then have tl: "tail c = Some (last cs)" using i as by (simp add: linked_def)
      have nt: "Some node \<noteq> tail c" using tl cne d by auto
      from unlink_mid [of bs node cs c] d seg False cne
      obtain c1 n where u: "(do {
            n \<leftarrow> node_at c (Some node);
            c' \<leftarrow> set_next (prev n) (nxt n) c;
            n' \<leftarrow> node_at c' (Some node);
            set_prev (nxt n') (prev n') c'
          }) = Some c1"
        and seg1: "dseg (map_of (heap c1)) None (bs @ cs) None" and h1: "head c1 = head c"
        and t1: "tail c1 = tail c" and n1: "map_of (heap c1) node = Some n"
        and r1: "relinked c c1"
        by auto
      have d1: "distinct (node # bs @ cs)" using d by auto
      have hd1: "head c1 = Some (hd (bs @ cs))" using h1 hd False by simp
      from push_front [of node "bs @ cs" c1 n] d1 seg1 False hd1 n1
      obtain c' where p: "(do {
            c2 \<leftarrow> set_prev (Some node) None c1;
            c3 \<leftarrow> set_next (Some node) (head c2) c2;
            c4 \<leftarrow> set_prev (head c3) (Some node) c3;
            Some (c4\<lparr>head := Some node\<rparr>)
          }) = Some c'"
        and seg': "dseg (map_of (heap c')) None (node # bs @ cs) None" and h': "head c' = Some node"
        and t': "tail c' = tail c1" and r': "relinked c1 c'"
        by auto
      have run: "move_to_front node c = Some c'"
        unfolding move_to_front_def using nh nt u p by simp
      have "linked c' (node # bs @ cs)"
      proof (rule linked_relinked [OF i relinked_trans [OF r1 r']])
        show "distinct (node # bs @ cs)" by (rule d1)
        show "set (node # bs @ cs) = set as" using as by auto
        show "dseg (map_of (heap c')) None (node # bs @ cs) None" by (rule seg')
        show "head c' = (case node # bs @ cs of [] \<Rightarrow> None | a # _ \<Rightarrow> Some a)"
          using h' by simp
        show "tail c' = (if node # bs @ cs = [] then None else Some (last (node # bs @ cs)))"
          using t' t1 tl cne by simp
      qed
      then show ?thesis using run rm relinked_trans [OF r1 r'] by simp
    qed
  qed
qed


lemma walk_dseg:
  "dseg (map_of (heap c)) p as None \<Longrightarrow> length as \<le> fuel \<Longrightarrow>
   walk c fuel (case as of [] \<Rightarrow> None | a # _ \<Rightarrow> Some a) = as"
proof (induction as arbitrary: p fuel)
  case Nil
  then show ?case by (cases fuel) simp_all
next
  case (Cons a as)
  then obtain f where f: "fuel = Suc f" and le: "length as \<le> f" by (cases fuel) auto
  from Cons.prems(1) obtain n where n: "map_of (heap c) a = Some n"
    and nn: "nxt n = (case as of [] \<Rightarrow> None | b # _ \<Rightarrow> Some b)"
    and rest: "dseg (map_of (heap c)) (Some a) as None"
    by (auto simp: dseg.simps split: option.splits)
  show ?case
    using Cons.IH [OF rest le] n nn f by simp
qed

lemma linked_length_heap:
  assumes "linked c as"
  shows "length as \<le> length (heap c)"
proof -
  have "set as \<subseteq> fst ` set (heap c)"
  proof
    fix a assume "a \<in> set as"
    then obtain n where "map_of (heap c) a = Some n" using linked_allocated [OF assms] by blast
    then have "(a, n) \<in> set (heap c)" by (rule map_of_SomeD)
    then show "a \<in> fst ` set (heap c)" by force
  qed
  then have "card (set as) \<le> card (fst ` set (heap c))"
    by (intro card_mono) auto
  also have "\<dots> \<le> length (heap c)"
    by (metis card_image_le card_length le_trans List.finite_set)
  finally show ?thesis using assms by (simp add: linked_def distinct_card)
qed

lemma linked_chain: "linked c as \<Longrightarrow> chain c = as"
  using walk_dseg [of c None as "length (heap c)"] linked_length_heap [of c as]
  by (simp add: chain_def linked_def)

lemma linked_unique: "linked c as \<Longrightarrow> linked c bs \<Longrightarrow> as = bs"
  using linked_chain by metis

lemma linked_entries:
  "linked c as \<Longrightarrow> entries c = map (\<lambda>a. the (payload c a)) as"
proof -
  assume i: "linked c as"
  have "\<And>a. a \<in> set as \<Longrightarrow>
      (case node_at c (Some a) of Some n \<Rightarrow> (key n, val n) | None \<Rightarrow> ([], [])) = the (payload c a)"
  proof -
    fix a assume "a \<in> set as"
    then obtain n where "map_of (heap c) a = Some n" using linked_allocated [OF i] by blast
    then show "(case node_at c (Some a) of Some n \<Rightarrow> (key n, val n) | None \<Rightarrow> ([], [])) = the (payload c a)"
      by (simp add: payload_def)
  qed
  then show ?thesis by (simp add: entries_def linked_chain [OF i])
qed

lemma linked_entries_lookup:
  assumes "linked c as"
  shows "map_of (entries c) k =
           (case map_of (cache_map c) k of None \<Rightarrow> None
            | Some a \<Rightarrow> map_option snd (payload c a))"
proof -
  have iff: "\<And>k a. map_of (cache_map c) k = Some a \<longleftrightarrow>
              a \<in> set as \<and> map_option fst (payload c a) = Some k"
    using assms by (simp add: linked_def)
  have alloc: "\<And>a. a \<in> set as \<Longrightarrow> \<exists>kv. payload c a = Some kv"
    using linked_allocated [OF assms] by (auto simp: payload_def)
  have gen: "\<And>bs. set bs \<subseteq> set as \<Longrightarrow>
      map_of (map (\<lambda>a. the (payload c a)) bs) k =
        (case map_of (cache_map c) k of None \<Rightarrow> None
         | Some a \<Rightarrow> if a \<in> set bs then map_option snd (payload c a) else None)"
  proof -
    fix bs show "set bs \<subseteq> set as \<Longrightarrow>
      map_of (map (\<lambda>a. the (payload c a)) bs) k =
        (case map_of (cache_map c) k of None \<Rightarrow> None
         | Some a \<Rightarrow> if a \<in> set bs then map_option snd (payload c a) else None)"
    proof (induction bs)
      case Nil
      then show ?case by (simp split: option.splits)
    next
      case (Cons b bs)
      then have b: "b \<in> set as" and sub: "set bs \<subseteq> set as" by auto
      from alloc [OF b] obtain kb vb where pb: "payload c b = Some (kb, vb)" by auto
      then have mb: "map_of (cache_map c) kb = Some b" using iff b by simp
      show ?case
      proof (cases "kb = k")
        case True
        then show ?thesis using pb mb by simp
      next
        case False
        have "map_of (cache_map c) k \<noteq> Some b"
          using iff [of k b] pb False by auto
        then show ?thesis using Cons.IH [OF sub] pb False
          by (auto split: option.splits)
      qed
    qed
  qed
  have "\<And>a. map_of (cache_map c) k = Some a \<Longrightarrow> a \<in> set as" using iff by blast
  then show ?thesis
    using gen [of as] assms by (auto simp: linked_entries split: option.splits)
qed

lemma lru_get_linked:
  assumes i: "linked c as"
  shows "(map_of (cache_map c) k = None \<longrightarrow> lru_get c k = Some (None, c)) \<and>
         (\<forall>node. map_of (cache_map c) k = Some node \<longrightarrow>
            (\<exists>c' v. lru_get c k = Some (Some v, c') \<and> payload c node = Some (k, v) \<and>
                    linked c' (node # remove1 node as) \<and> relinked c c'))"
proof (intro conjI allI impI)
  assume "map_of (cache_map c) k = None"
  then show "lru_get c k = Some (None, c)" by (simp add: lru_get_def)
next
  fix node assume m: "map_of (cache_map c) k = Some node"
  from linked_lookup [OF i m] obtain n where mem: "node \<in> set as"
    and n: "map_of (heap c) node = Some n" and kn: "key n = k" by auto
  from move_to_front_linked [OF i mem] obtain c' where
    run: "move_to_front node c = Some c'" and i': "linked c' (node # remove1 node as)"
    and r: "relinked c c'" by auto
  have p: "payload c node = Some (k, val n)" using n kn by (simp add: payload_def)
  then have "payload c' node = Some (k, val n)" using r by (simp add: relinked_def)
  then obtain n' where n': "map_of (heap c') node = Some n'" and vn: "val n' = val n"
    by (auto simp: payload_def)
  have "lru_get c k = Some (Some (val n), c')"
    using m run n' vn by (simp add: lru_get_def)
  then show "\<exists>c' v. lru_get c k = Some (Some v, c') \<and> payload c node = Some (k, v) \<and>
                    linked c' (node # remove1 node as) \<and> relinked c c'"
    using p i' r by blast
qed


lemma length_delete_present:
  "distinct (map fst al) \<Longrightarrow> map_of al k = Some v \<Longrightarrow>
   Suc (length (AList.delete k al)) = length al"
proof (induction al)
  case Nil
  then show ?case by simp
next
  case (Cons x al)
  obtain a b where x: "x = (a, b)" by (cases x)
  show ?case
  proof (cases "a = k")
    case True
    then have "k \<notin> fst ` set al" using Cons.prems x by auto
    then show ?thesis using True x by (simp add: delete_id)
  next
    case False
    then show ?thesis using Cons x by simp
  qed
qed

lemma length_update_absent:
  "map_of al k = None \<Longrightarrow> length (AList.update k v al) = Suc (length al)"
  by (induction al) (auto split: if_splits)

text \<open>Overwriting the value of a node of the list.\<close>

lemma set_val_linked:
  assumes i: "linked c as" and m: "map_of (cache_map c) k = Some node"
  shows "\<exists>c'. set_val (Some node) v c = Some c' \<and> linked c' as \<and>
           cache_map c' = cache_map c \<and> capacity c' = capacity c \<and>
           payload c' = (payload c)(node \<mapsto> (k, v))"
proof -
  from linked_lookup [OF i m] obtain n where mem: "node \<in> set as"
    and n: "map_of (heap c) node = Some n" and kn: "key n = k" by auto
  let ?c' = "c\<lparr>heap := AList.update node (n\<lparr>val := v\<rparr>) (heap c)\<rparr>"
  have run: "set_val (Some node) v c = Some ?c'" using n by (rule set_val_Some)
  have pl: "payload ?c' = (payload c)(node \<mapsto> (k, v))"
    using n kn by (auto simp: payload_def update_conv')
  have seg: "dseg (map_of (heap ?c')) None as None"
    using i n by (simp add: update_conv' dseg_payload linked_def)
  have keys: "\<And>a. map_option fst (payload ?c' a) = map_option fst (payload c a)"
    using n kn by (simp add: pl payload_def)
  have "linked ?c' as"
    using i seg unfolding linked_def keys by simp
  then show ?thesis using run pl by simp
qed

text \<open>Evicting the tail of a list with at least two nodes.\<close>

lemma evict_lru_linked:
  assumes i: "linked c (bs @ [t])" and ne: "bs \<noteq> []"
  shows "\<exists>c' kt vt. evict_lru c = Some c' \<and> linked c' bs \<and> payload c t = Some (kt, vt) \<and>
           map_of (cache_map c') = (map_of (cache_map c))(kt := None) \<and>
           capacity c' = capacity c \<and> next_free c' = next_free c \<and>
           payload c' = (payload c)(t := None)"
proof -
  have d: "distinct (bs @ [t])" and seg: "dseg (map_of (heap c)) None (bs @ [t]) None"
    and tl: "tail c = Some t" and hd: "head c = Some (hd bs)"
    using i ne by (cases bs; simp add: linked_def)+
  obtain bs' b where bs: "bs = bs' @ [b]" using ne by (cases bs rule: rev_cases) auto
  let ?m = "map_of (heap c)"
  from dseg_split [OF seg ne] have segb: "dseg ?m None bs (Some t)"
    and "\<exists>n. ?m t = Some n \<and> prev n = Some (last bs)" by auto
  then obtain tn where tn: "?m t = Some tn" and pt: "prev tn = Some b" using bs by auto
  from segb bs obtain nb where nb: "?m b = Some nb"
    using dseg_allocated [of ?m None bs "Some t" b] by auto
  have neq: "b \<noteq> t" and bnot: "b \<notin> set bs'" and tnot: "t \<notin> set bs" using d bs by auto
  let ?c' = "c\<lparr>cache_map := AList.delete (key tn) (cache_map c), tail := Some b,
                 heap := AList.delete t (AList.update b (nb\<lparr>nxt := None\<rparr>) (heap c))\<rparr>"
  have run: "evict_lru c = Some ?c'"
    using tl tn pt nb
    by (simp add: evict_lru_def delete_node_def set_next_Some [where n = nb])
  have "dseg (?m(b \<mapsto> nb\<lparr>nxt := None\<rparr>)) None (bs' @ [b]) None"
    using bnot nb segb bs by (intro dseg_set_next_last) auto
  then have seg': "dseg (map_of (heap ?c')) None bs None"
    using bs tnot by (simp add: update_conv' delete_conv' dseg_frame)
  have pl: "payload ?c' = (payload c)(t := None)"
    using nb by (auto simp: payload_def update_conv' delete_conv')
  have pt': "payload c t = Some (key tn, val tn)" using tn by (simp add: payload_def)
  have iff: "\<And>k a. map_of (cache_map c) k = Some a \<longleftrightarrow>
              a \<in> set (bs @ [t]) \<and> map_option fst (payload c a) = Some k"
    using i by (simp add: linked_def)
  have mt: "map_of (cache_map c) (key tn) = Some t" using iff pt' by simp
  have len: "length (cache_map ?c') = length bs"
    using length_delete_present [OF _ mt] i by (simp add: linked_def)
  have iff': "\<And>k a. map_of (cache_map ?c') k = Some a \<longleftrightarrow>
              a \<in> set bs \<and> map_option fst (payload ?c' a) = Some k"
  proof -
    fix k a
    show "map_of (cache_map ?c') k = Some a \<longleftrightarrow>
              a \<in> set bs \<and> map_option fst (payload ?c' a) = Some k"
    proof (cases "a = t")
      case True
      have "map_of (cache_map c) k = Some t \<Longrightarrow> k = key tn"
        using iff [of k t] pt' by simp
      then show ?thesis using True tnot by (auto simp: delete_conv')
    next
      case False
      have "map_option fst (payload c a) = Some (key tn) \<Longrightarrow> a \<in> set (bs @ [t]) \<Longrightarrow> a = t"
        using iff [of "key tn" a] mt by simp
      then show ?thesis using False iff [of k a] by (auto simp: delete_conv' pl)
    qed
  qed
  have "linked ?c' bs"
    unfolding linked_def
    using d seg' hd ne bs i len iff'
    by (auto simp: linked_def distinct_delete split: list.splits)
  then show ?thesis using run pl pt' by (auto simp: delete_conv')
qed

text \<open>Evicting the only node: the tail becomes null, the head keeps pointing at the
  deleted node.\<close>

lemma evict_lru_single:
  assumes i: "linked c [t]"
  shows "\<exists>c'. evict_lru c = Some c' \<and> head c' = Some t \<and> tail c' = None \<and>
           map_of (heap c') t = None \<and> next_free c' = next_free c \<and> t < next_free c \<and>
           map_of (cache_map c') = (map_of (cache_map c))(fst (the (payload c t)) := None)"
proof -
  have tl: "tail c = Some t" and hd: "head c = Some t"
    and seg: "dseg (map_of (heap c)) None [t] None" and "t < next_free c"
    using i by (simp_all add: linked_def)
  from seg obtain tn where tn: "map_of (heap c) t = Some tn" and pt: "prev tn = None"
    by (auto simp: dseg.simps split: option.splits)
  show ?thesis
    using tl hd tn pt \<open>t < next_free c\<close>
    by (simp add: evict_lru_def delete_node_def delete_conv' payload_def)
qed


lemma link_new_node_linked:
  assumes i: "linked c as" and m: "map_of (cache_map c) k = None"
  shows "\<exists>c'. link_new_node k v c = Some c' \<and> linked c' (next_free c # as) \<and>
           payload c' = (payload c)(next_free c \<mapsto> (k, v)) \<and> capacity c' = capacity c \<and>
           map_of (cache_map c') = (map_of (cache_map c))(k \<mapsto> next_free c)"
proof -
  let ?new = "next_free c"
  let ?n = "\<lparr>key = k, val = v, prev = None, nxt = None\<rparr>"
  let ?m = "map_of (heap c)"
  have fresh: "?new \<notin> set as" using i by (auto simp: linked_def)
  have d: "distinct as" and seg: "dseg ?m None as None" using i by (simp_all add: linked_def)
  have iff: "\<And>k a. map_of (cache_map c) k = Some a \<longleftrightarrow>
              a \<in> set as \<and> map_option fst (payload c a) = Some k"
    using i by (simp add: linked_def)
  have nokey: "\<And>a. a \<in> set as \<Longrightarrow> map_option fst (payload c a) \<noteq> Some k"
    using iff m by (metis option.distinct(1))
  have len: "length (AList.update k ?new (cache_map c)) = Suc (length as)"
    using length_update_absent [OF m] i by (simp add: linked_def)
  have dk: "distinct (map fst (AList.update k ?new (cache_map c)))"
    using i by (simp add: linked_def distinct_update)
  show ?thesis
  proof (cases as)
    case Nil
    then have hd: "head c = None" using i by (simp add: linked_def)
    let ?c' = "c\<lparr>heap := AList.update ?new ?n (heap c), next_free := Suc ?new,
                   cache_map := AList.update k ?new (cache_map c),
                   head := Some ?new, tail := Some ?new\<rparr>"
    have run: "link_new_node k v c = Some ?c'"
      using hd by (simp add: link_new_node_def Let_def)
    have pl: "payload ?c' = (payload c)(?new \<mapsto> (k, v))"
      by (auto simp: payload_def update_conv')
    have "linked ?c' [?new]"
      unfolding linked_def using len dk Nil iff m
      by (auto simp: dseg.simps update_conv' pl)
    then show ?thesis using run pl Nil by (simp add: update_conv')
  next
    case (Cons a0 as')
    then have hd: "head c = Some a0" using i by (simp add: linked_def)
    from seg Cons obtain n0 where n0: "?m a0 = Some n0" using dseg_Cons by blast
    have neq: "a0 \<noteq> ?new" using fresh Cons by auto
    have a0not: "a0 \<notin> set as'" using d Cons by simp
    let ?c' = "c\<lparr>heap := AList.update a0 (n0\<lparr>prev := Some ?new\<rparr>)
                           (AList.update ?new (?n\<lparr>nxt := Some a0\<rparr>)
                              (AList.update ?new ?n (heap c))),
                   next_free := Suc ?new,
                   cache_map := AList.update k ?new (cache_map c),
                   head := Some ?new\<rparr>"
    have run: "link_new_node k v c = Some ?c'"
      using hd n0 neq
      by (simp add: link_new_node_def Let_def update_conv'
            set_next_Some [where n = ?n] set_prev_Some [where n = n0])
    have m': "map_of (heap ?c') = ?m(?new \<mapsto> ?n\<lparr>nxt := Some a0\<rparr>, a0 \<mapsto> n0\<lparr>prev := Some ?new\<rparr>)"
      by (simp add: update_conv')
    have pl: "payload ?c' = (payload c)(?new \<mapsto> (k, v))"
      using n0 neq by (auto simp: payload_def update_conv')
    have "dseg (?m(?new := Some (?n\<lparr>nxt := Some a0\<rparr>))) None (a0 # as') None"
      using seg Cons fresh by (simp add: dseg_frame)
    then have "dseg (?m(?new \<mapsto> ?n\<lparr>nxt := Some a0\<rparr>, a0 \<mapsto> n0\<lparr>prev := Some ?new\<rparr>))
                 (Some ?new) (a0 # as') None"
      using a0not n0 neq by (intro dseg_set_prev_first) auto
    then have seg': "dseg (map_of (heap ?c')) None (?new # as) None"
      unfolding m' using Cons neq by (simp add: dseg.simps(2))
    have tl: "tail c = Some (last as)" using i Cons by (simp add: linked_def)
    have bound: "\<forall>a \<in> set as. a < ?new" using i by (simp add: linked_def)
    have iff': "\<And>k' a. map_of (cache_map ?c') k' = Some a \<longleftrightarrow>
              a \<in> set (?new # as) \<and> map_option fst (payload ?c' a) = Some k'"
      using iff nokey fresh unfolding pl by (auto simp: update_conv')
    have "linked ?c' (?new # as)"
      unfolding linked_def
      using fresh d seg' tl Cons bound dk len iff' by auto
    then show ?thesis using run pl by (simp add: update_conv')
  qed
qed

lemma link_new_node_dangling:
  assumes "head c = Some t" and "map_of (heap c) t = None" and "t \<noteq> next_free c"
  shows "link_new_node k v c = None"
  using assms
  by (simp add: link_new_node_def Let_def update_conv' set_prev_def update_node_def
        set_next_Some [where n = "\<lparr>key = k, val = v, prev = None, nxt = None\<rparr>"])


lemma linked_drop:
  assumes i: "linked c as" and m: "map_of (cache_map c) k = Some node"
    and r: "relinked c c1" and d: "distinct as'" and s: "set as = insert node (set as')"
    and nn: "node \<notin> set as'"
    and seg: "dseg (map_of (heap c1)) None as' None"
    and h: "head c1 = (case as' of [] \<Rightarrow> None | a # _ \<Rightarrow> Some a)"
    and t: "tail c1 = (if as' = [] then None else Some (last as'))"
  shows "linked (delete_node node (c1\<lparr>cache_map := AList.delete k (cache_map c1)\<rparr>)) as'"
proof -
  let ?c' = "delete_node node (c1\<lparr>cache_map := AList.delete k (cache_map c1)\<rparr>)"
  have cm: "cache_map c1 = cache_map c" and nf: "next_free c1 = next_free c"
    and pl1: "\<And>a. payload c1 a = payload c a"
    using r by (simp_all add: relinked_def)
  have pl: "\<And>a. payload ?c' a = (if a = node then None else payload c a)"
    using pl1 by (simp add: payload_def delete_node_def delete_conv')
  have iff: "\<And>k a. map_of (cache_map c) k = Some a \<longleftrightarrow>
              a \<in> set as \<and> map_option fst (payload c a) = Some k"
    using i by (simp add: linked_def)
  have seg': "dseg (map_of (heap ?c')) None as' None"
    using seg nn by (simp add: delete_node_def delete_conv' dseg_frame)
  have "length as = Suc (length as')"
    using i d s nn by (metis card_insert_disjoint distinct_card List.finite_set linked_def)
  then have len: "length (cache_map ?c') = length as'"
    using length_delete_present [OF _ m] i cm by (simp add: linked_def delete_node_def)
  have dk: "distinct (map fst (cache_map ?c'))"
    using i cm by (simp add: linked_def delete_node_def distinct_delete)
  have pk: "map_option fst (payload c node) = Some k" using iff m by simp
  have iff': "\<And>k' a. map_of (cache_map ?c') k' = Some a \<longleftrightarrow>
              a \<in> set as' \<and> map_option fst (payload ?c' a) = Some k'"
  proof -
    fix k' a
    show "map_of (cache_map ?c') k' = Some a \<longleftrightarrow>
              a \<in> set as' \<and> map_option fst (payload ?c' a) = Some k'"
    proof (cases "a = node")
      case True
      have "map_of (cache_map c) k' = Some node \<Longrightarrow> k' = k"
        using iff [of k' node] pk by simp
      then show ?thesis using True nn cm by (auto simp: delete_node_def delete_conv')
    next
      case False
      have "map_option fst (payload c a) = Some k \<Longrightarrow> a \<in> set as \<Longrightarrow> a = node"
        using iff [of k a] m by simp
      then show ?thesis
        using False iff [of k' a] s cm pl by (auto simp: delete_node_def delete_conv')
    qed
  qed
  have bound: "\<forall>a \<in> set as'. a < next_free ?c'"
    using i s nf by (simp add: linked_def delete_node_def)
  show ?thesis
    unfolding linked_def
    using d seg' h t bound dk len iff' by (simp add: delete_node_def)
qed

lemma lru_remove_linked:
  assumes i: "linked c as"
  shows "(map_of (cache_map c) k = None \<longrightarrow> lru_remove c k = Some (False, c)) \<and>
         (\<forall>node. map_of (cache_map c) k = Some node \<longrightarrow>
            (\<exists>c'. lru_remove c k = Some (True, c') \<and> linked c' (remove1 node as) \<and>
                  capacity c' = capacity c \<and> (\<forall>a. payload c' a = (if a = node then None else payload c a))))"
proof (intro conjI allI impI)
  assume "map_of (cache_map c) k = None"
  then show "lru_remove c k = Some (False, c)" by (simp add: lru_remove_def)
next
  fix node assume m: "map_of (cache_map c) k = Some node"
  from linked_lookup [OF i m] have mem: "node \<in> set as" by simp
  then obtain bs cs where as: "as = bs @ node # cs" and nb: "node \<notin> set bs"
    by (meson split_list_first)
  have d: "distinct (bs @ node # cs)" and seg: "dseg (map_of (heap c)) None (bs @ node # cs) None"
    using i as by (simp_all add: linked_def)
  have rm: "remove1 node as = bs @ cs" using as nb by (simp add: remove1_append)
  have sets: "set as = insert node (set (bs @ cs))" using as by auto
  have nn: "node \<notin> set (bs @ cs)" and d': "distinct (bs @ cs)" using d by auto
  let ?final = "\<lambda>c1. delete_node node (c1\<lparr>cache_map := AList.delete k (cache_map c1)\<rparr>)"
  have fin: "\<And>c1. relinked c c1 \<Longrightarrow> dseg (map_of (heap c1)) None (bs @ cs) None \<Longrightarrow>
      head c1 = (case bs @ cs of [] \<Rightarrow> None | a # _ \<Rightarrow> Some a) \<Longrightarrow>
      tail c1 = (if bs @ cs = [] then None else Some (last (bs @ cs))) \<Longrightarrow>
      linked (?final c1) (bs @ cs) \<and> capacity (?final c1) = capacity c \<and>
      (\<forall>a. payload (?final c1) a = (if a = node then None else payload c a))"
    using linked_drop [OF i m _ d' sets nn]
    by (simp add: relinked_def payload_def delete_node_def delete_conv')
  have "\<exists>c1. lru_remove c k = Some (True, ?final c1) \<and> relinked c c1 \<and>
          dseg (map_of (heap c1)) None (bs @ cs) None \<and>
          head c1 = (case bs @ cs of [] \<Rightarrow> None | a # _ \<Rightarrow> Some a) \<and>
          tail c1 = (if bs @ cs = [] then None else Some (last (bs @ cs)))"
  proof (cases "bs = []")
    case True
    then have hd: "head c = Some node" using i as by (simp add: linked_def)
    from seg True obtain n where n: "map_of (heap c) node = Some n"
      and nx: "nxt n = (case cs of [] \<Rightarrow> None | b # _ \<Rightarrow> Some b)"
      and segc: "dseg (map_of (heap c)) (Some node) cs None"
      by (auto simp: dseg.simps split: option.splits)
    show ?thesis
    proof (cases cs)
      case Nil
      let ?c1 = "c\<lparr>head := None, tail := None\<rparr>"
      have "lru_remove c k = Some (True, ?final ?c1)"
        using m hd n nx Nil by (simp add: lru_remove_def)
      moreover have "relinked c ?c1" by (simp add: relinked_def payload_def)
      ultimately show ?thesis using True Nil
        by (intro exI [of _ ?c1]) (simp add: dseg.simps)
    next
      case (Cons c0 cs')
      from segc Cons obtain n0 where n0: "map_of (heap c) c0 = Some n0" using dseg_Cons by blast
      have c0not: "c0 \<notin> set cs'" and neq: "c0 \<noteq> node" using d Cons by auto
      let ?c1 = "c\<lparr>head := Some c0, heap := AList.update c0 (n0\<lparr>prev := None\<rparr>) (heap c)\<rparr>"
      have run: "lru_remove c k = Some (True, ?final ?c1)"
        using m hd n nx Cons n0 by (simp add: lru_remove_def set_prev_Some [where n = n0])
      have "dseg ((map_of (heap c))(c0 \<mapsto> n0\<lparr>prev := None\<rparr>)) None (c0 # cs') None"
        using c0not n0 segc Cons by (intro dseg_set_prev_first) auto
      then have seg1: "dseg (map_of (heap ?c1)) None (bs @ cs) None"
        using True Cons by (simp add: update_conv')
      have rel: "relinked c ?c1" using n0 by (auto simp: relinked_def payload_def update_conv')
      have tl: "tail c = Some (last cs)" using i as Cons by (simp add: linked_def)
      show ?thesis using run seg1 rel tl True Cons
        by (intro exI [of _ ?c1]) simp
    qed
  next
    case False
    then have hd: "head c = Some (hd bs)" using i as by (cases bs) (simp_all add: linked_def)
    have nh: "Some node \<noteq> head c" using hd False nb by (cases bs) auto
    show ?thesis
    proof (cases "cs = []")
      case True
      then have tl: "tail c = Some node" using i as by (simp add: linked_def)
      from unlink_tail [of bs node c] d seg False tl True
      obtain c1 n where u: "(do {
            n \<leftarrow> node_at c (Some node);
            let c' = c\<lparr>tail := prev n\<rparr>;
            set_next (tail c') None c'
          }) = Some c1"
        and n: "map_of (heap c) node = Some n" and pn: "prev n = Some (last bs)"
        and seg1: "dseg (map_of (heap c1)) None bs None" and h1: "head c1 = head c"
        and t1: "tail c1 = Some (last bs)" and r1: "relinked c c1"
        by auto
      have "lru_remove c k = Some (True, ?final c1)"
        using m nh tl n pn u by (simp add: lru_remove_def)
      then show ?thesis using seg1 h1 hd t1 r1 True False
        by (intro exI [of _ c1]) (cases bs; simp)
    next
      case cne: False
      then have tl: "tail c = Some (last cs)" using i as by (simp add: linked_def)
      have nt: "Some node \<noteq> tail c" using tl cne d by auto
      from unlink_mid [of bs node cs c] d seg False cne
      obtain c1 n where u: "(do {
            n \<leftarrow> node_at c (Some node);
            c' \<leftarrow> set_next (prev n) (nxt n) c;
            n' \<leftarrow> node_at c' (Some node);
            set_prev (nxt n') (prev n') c'
          }) = Some c1"
        and seg1: "dseg (map_of (heap c1)) None (bs @ cs) None" and h1: "head c1 = head c"
        and t1: "tail c1 = tail c" and r1: "relinked c c1"
        by auto
      have "lru_remove c k = Some (True, ?final c1)"
        using m nh nt u by (simp add: lru_remove_def)
      then show ?thesis using seg1 h1 hd t1 tl r1 cne False
        by (intro exI [of _ c1]) (cases bs; simp)
    qed
  qed
  then obtain c1 where run: "lru_remove c k = Some (True, ?final c1)" and rel: "relinked c c1"
    and seg1: "dseg (map_of (heap c1)) None (bs @ cs) None"
    and h1: "head c1 = (case bs @ cs of [] \<Rightarrow> None | a # _ \<Rightarrow> Some a)"
    and t1: "tail c1 = (if bs @ cs = [] then None else Some (last (bs @ cs)))"
    by blast
  show "\<exists>c'. lru_remove c k = Some (True, c') \<and> linked c' (remove1 node as) \<and>
             capacity c' = capacity c \<and> (\<forall>a. payload c' a = (if a = node then None else payload c a))"
    using run fin [OF rel seg1 h1 t1] rm by metis
qed


lemma wf_cacheI: "linked c as \<Longrightarrow> wf_cache c"
  by (simp add: wf_cache_def linked_chain)

lemma linked_size: "linked c as \<Longrightarrow> lru_size c = length (entries c)"
  using linked_entries [of c as] by (simp add: lru_size_def linked_def)

lemma linked_key_of:
  assumes "linked c as" and "a \<in> set as"
  shows "fst (the (payload c a)) = k \<longleftrightarrow> map_of (cache_map c) k = Some a"
proof -
  from linked_allocated [OF assms] obtain kv where "payload c a = Some kv"
    by (auto simp: payload_def)
  then show ?thesis using assms by (cases kv) (auto simp: linked_def)
qed

lemma filter_map_remove1:
  "distinct as \<Longrightarrow> (\<And>a. a \<in> set as \<Longrightarrow> P (f a) \<longleftrightarrow> a \<noteq> node) \<Longrightarrow>
   filter P (map f as) = map f (remove1 node as)"
proof (induction as)
  case Nil
  then show ?case by simp
next
  case (Cons a as)
  show ?case
  proof (cases "a = node")
    case True
    then have "\<And>b. b \<in> set as \<Longrightarrow> P (f b)" using Cons.prems by auto
    then have "filter P (map f as) = map f as" by (simp add: filter_id_conv)
    then show ?thesis using True Cons.prems(2) [of a] by simp
  next
    case False
    then show ?thesis using Cons by simp
  qed
qed

lemma linked_filter_key:
  assumes i: "linked c as" and m: "map_of (cache_map c) k = Some node"
  shows "filter (\<lambda>e. fst e \<noteq> k) (entries c) = map (\<lambda>a. the (payload c a)) (remove1 node as)"
proof -
  have "\<And>a. a \<in> set as \<Longrightarrow> (fst (the (payload c a)) \<noteq> k) \<longleftrightarrow> a \<noteq> node"
    using linked_key_of [OF i, of _ k] m by auto
  then show ?thesis
    using i by (simp add: linked_entries [OF i] linked_def filter_map_remove1 [where node = node])
qed

lemma linked_filter_absent:
  assumes i: "linked c as" and m: "map_of (cache_map c) k = None"
  shows "filter (\<lambda>e. fst e \<noteq> k) (entries c) = entries c"
proof -
  have "\<And>a. a \<in> set as \<Longrightarrow> fst (the (payload c a)) \<noteq> k"
    using linked_key_of [OF i, of _ k] m by auto
  then show ?thesis by (simp add: linked_entries [OF i] filter_id_conv)
qed

lemma map_payload_cong:
  "(\<And>a. a \<in> set as \<Longrightarrow> payload c' a = payload c a) \<Longrightarrow>
   map (\<lambda>a. the (payload c' a)) as = map (\<lambda>a. the (payload c a)) as"
  by simp

lemma get_entries:
  assumes w: "wf_cache c"
  shows "\<exists>c'. lru_get c k = Some (map_of (entries c) k, c') \<and> wf_cache c' \<and>
           capacity c' = capacity c \<and>
           entries c' = (case map_of (entries c) k of
                           None \<Rightarrow> entries c
                         | Some v \<Rightarrow> (k, v) # filter (\<lambda>e. fst e \<noteq> k) (entries c)) \<and>
           (map_of (entries c) k = None \<longrightarrow> c' = c)"
proof -
  let ?as = "chain c"
  have i: "linked c ?as" using w by (simp add: wf_cache_def)
  show ?thesis
  proof (cases "map_of (cache_map c) k")
    case None
    then have "map_of (entries c) k = None" by (simp add: linked_entries_lookup [OF i])
    then show ?thesis using lru_get_linked [OF i, of k] None w by simp
  next
    case (Some node)
    from lru_get_linked [OF i, of k] Some obtain c' v where
      run: "lru_get c k = Some (Some v, c')" and p: "payload c node = Some (k, v)"
      and i': "linked c' (node # remove1 node ?as)" and r: "relinked c c'" by blast
    have look: "map_of (entries c) k = Some v"
      using Some p by (simp add: linked_entries_lookup [OF i])
    have pl: "\<And>a. payload c' a = payload c a" using r by (simp add: relinked_def)
    have "entries c' = (k, v) # map (\<lambda>a. the (payload c a)) (remove1 node ?as)"
      using p by (simp add: linked_entries [OF i'] pl)
    then have "entries c' = (k, v) # filter (\<lambda>e. fst e \<noteq> k) (entries c)"
      by (simp add: linked_filter_key [OF i Some])
    then show ?thesis
      using run look wf_cacheI [OF i'] r by (simp add: relinked_def)
  qed
qed

lemma remove_entries:
  assumes w: "wf_cache c"
  shows "\<exists>c'. lru_remove c k = Some (map_of (entries c) k \<noteq> None, c') \<and> wf_cache c' \<and>
           capacity c' = capacity c \<and>
           entries c' = filter (\<lambda>e. fst e \<noteq> k) (entries c)"
proof -
  let ?as = "chain c"
  have i: "linked c ?as" using w by (simp add: wf_cache_def)
  show ?thesis
  proof (cases "map_of (cache_map c) k")
    case None
    then have "map_of (entries c) k = None" by (simp add: linked_entries_lookup [OF i])
    then show ?thesis
      using lru_remove_linked [OF i, of k] None w linked_filter_absent [OF i None] by simp
  next
    case (Some node)
    from lru_remove_linked [OF i, of k] Some obtain c' where
      run: "lru_remove c k = Some (True, c')" and i': "linked c' (remove1 node ?as)"
      and cap: "capacity c' = capacity c"
      and pl: "\<And>a. payload c' a = (if a = node then None else payload c a)" by blast
    from linked_lookup [OF i Some] obtain n where "map_of (heap c) node = Some n" by auto
    then have look: "map_of (entries c) k \<noteq> None"
      using Some by (simp add: linked_entries_lookup [OF i] payload_def)
    have d: "distinct ?as" using i by (simp add: linked_def)
    have "\<And>a. a \<in> set (remove1 node ?as) \<Longrightarrow> payload c' a = payload c a"
      using pl d by auto
    then have "entries c' = map (\<lambda>a. the (payload c a)) (remove1 node ?as)"
      by (simp add: linked_entries [OF i'])
    then have "entries c' = filter (\<lambda>e. fst e \<noteq> k) (entries c)"
      by (simp add: linked_filter_key [OF i Some])
    then show ?thesis using run look wf_cacheI [OF i'] cap by simp
  qed
qed


lemma put_entries_cases:
  assumes w: "wf_cache c"
  shows "if map_of (entries c) k = None \<and> capacity c \<le> length (entries c) \<and> length (entries c) = 1
         then lru_put c k v = None
         else (\<exists>c'. lru_put c k v = Some (True, c') \<and> wf_cache c' \<and>
                 capacity c' = capacity c \<and>
                 entries c' = (k, v) # (case map_of (entries c) k of
                                          Some _ \<Rightarrow> filter (\<lambda>e. fst e \<noteq> k) (entries c)
                                        | None \<Rightarrow> if capacity c \<le> length (entries c)
                                                  then butlast (entries c) else entries c))"
proof -
  let ?as = "chain c"
  have i: "linked c ?as" using w by (simp add: wf_cache_def)
  have sz: "lru_size c = length (entries c)" using i by (rule linked_size)
  have len: "length (entries c) = length ?as" by (simp add: linked_entries [OF i])
  have d: "distinct ?as" using i by (simp add: linked_def)
  show ?thesis
  proof (cases "map_of (cache_map c) k")
    case (Some node)
    from linked_lookup [OF i Some] obtain n where mem: "node \<in> set ?as"
      and n: "map_of (heap c) node = Some n" by auto
    then have look: "map_of (entries c) k \<noteq> None"
      using Some by (simp add: linked_entries_lookup [OF i] payload_def)
    from set_val_linked [OF i Some, of v] obtain c1 where
      s1: "set_val (Some node) v c = Some c1" and i1: "linked c1 ?as"
      and cap1: "capacity c1 = capacity c"
      and pl1: "payload c1 = (payload c)(node \<mapsto> (k, v))" by blast
    from move_to_front_linked [OF i1 mem] obtain c' where
      run: "move_to_front node c1 = Some c'" and i': "linked c' (node # remove1 node ?as)"
      and r: "relinked c1 c'" by blast
    have put: "lru_put c k v = Some (True, c')"
      using Some s1 run by (simp add: lru_put_def)
    have pl: "\<And>a. payload c' a = ((payload c)(node \<mapsto> (k, v))) a"
      using r pl1 by (simp add: relinked_def)
    have "\<And>a. a \<in> set (remove1 node ?as) \<Longrightarrow> payload c' a = payload c a"
      using pl d by auto
    then have "entries c' = (k, v) # map (\<lambda>a. the (payload c a)) (remove1 node ?as)"
      using pl by (simp add: linked_entries [OF i'])
    then have "entries c' = (k, v) # filter (\<lambda>e. fst e \<noteq> k) (entries c)"
      by (simp add: linked_filter_key [OF i Some])
    then show ?thesis
      using put look wf_cacheI [OF i'] r cap1 by (auto simp: relinked_def)
  next
    case None
    then have look: "map_of (entries c) k = None" by (simp add: linked_entries_lookup [OF i])
    show ?thesis
    proof (cases "capacity c \<le> length (entries c)")
      case False
      from link_new_node_linked [OF i None, of v] obtain c' where
        l: "link_new_node k v c = Some c'" and i': "linked c' (next_free c # ?as)"
        and pl: "payload c' = (payload c)(next_free c \<mapsto> (k, v))"
        and cap: "capacity c' = capacity c" by blast
      have fresh: "next_free c \<notin> set ?as" using i by (auto simp: linked_def)
      have put: "lru_put c k v = Some (True, c')"
        using None False sz l by (simp add: lru_put_def)
      have "entries c' = (k, v) # entries c"
        using fresh by (simp add: linked_entries [OF i'] linked_entries [OF i] pl)
      then show ?thesis using put look False wf_cacheI [OF i'] cap by simp
    next
      case True
      show ?thesis
      proof (cases ?as rule: rev_cases)
        case Nil
        then have "tail c = None" using i by (simp add: linked_def)
        then have ev: "evict_lru c = Some c" by (simp add: evict_lru_def)
        from link_new_node_linked [OF i None, of v] obtain c' where
          l: "link_new_node k v c = Some c'" and i': "linked c' (next_free c # ?as)"
          and pl: "payload c' = (payload c)(next_free c \<mapsto> (k, v))"
          and cap: "capacity c' = capacity c" by blast
        have put: "lru_put c k v = Some (True, c')"
          using None True sz l ev by (simp add: lru_put_def)
        have e0: "entries c = []" using Nil by (simp add: linked_entries [OF i])
        have "entries c' = [(k, v)]"
          using Nil by (simp add: linked_entries [OF i'] pl)
        then show ?thesis using put look True e0 wf_cacheI [OF i'] cap by simp
      next
        case (snoc bs t)
        show ?thesis
        proof (cases "bs = []")
          case True
          then have i1: "linked c [t]" using i snoc by simp
          from evict_lru_single [OF i1] obtain c1 where
            ev: "evict_lru c = Some c1" and h: "head c1 = Some t"
            and dead: "map_of (heap c1) t = None" and nf: "next_free c1 = next_free c"
            and lt: "t < next_free c" by blast
          have "link_new_node k v c1 = None"
            using h dead nf lt by (intro link_new_node_dangling [where t = t]) auto
          then have "lru_put c k v = None"
            using None \<open>capacity c \<le> length (entries c)\<close> sz ev by (simp add: lru_put_def)
          then show ?thesis
            using look \<open>capacity c \<le> length (entries c)\<close> len snoc True by simp
        next
          case False
          have ib: "linked c (bs @ [t])" using i snoc by simp
          from evict_lru_linked [OF ib False] obtain c1 kt vt where
            ev: "evict_lru c = Some c1" and i1: "linked c1 bs"
            and m1: "map_of (cache_map c1) = (map_of (cache_map c))(kt := None)"
            and cap1: "capacity c1 = capacity c" and nf: "next_free c1 = next_free c"
            and pl1: "payload c1 = (payload c)(t := None)" by blast
          have none1: "map_of (cache_map c1) k = None" using m1 None by simp
          from link_new_node_linked [OF i1 none1, of v] obtain c' where
            l: "link_new_node k v c1 = Some c'" and i': "linked c' (next_free c1 # bs)"
            and pl: "payload c' = (payload c1)(next_free c1 \<mapsto> (k, v))"
            and cap: "capacity c' = capacity c1" by blast
          have put: "lru_put c k v = Some (True, c')"
            using None \<open>capacity c \<le> length (entries c)\<close> sz ev l by (simp add: lru_put_def)
          have fresh: "next_free c \<notin> set bs" and tn: "t \<notin> set bs"
            using i snoc by (auto simp: linked_def)
          have "\<And>a. a \<in> set bs \<Longrightarrow> payload c' a = payload c a"
            using fresh tn nf by (auto simp: pl pl1)
          then have "entries c' = (k, v) # map (\<lambda>a. the (payload c a)) bs"
            by (simp add: linked_entries [OF i'] pl)
          moreover have "butlast (entries c) = map (\<lambda>a. the (payload c a)) bs"
            using snoc by (simp add: linked_entries [OF i])
          ultimately have "entries c' = (k, v) # butlast (entries c)" by simp
          moreover have "length (entries c) \<noteq> 1" using len snoc False by simp
          ultimately show ?thesis
            using put look \<open>capacity c \<le> length (entries c)\<close> wf_cacheI [OF i'] cap cap1 by simp
        qed
      qed
    qed
  qed
qed

lemma put_entries:
  assumes w: "wf_cache c"
  shows "if evicts_only_node c k
         then lru_put c k v = None
         else (\<exists>c'. lru_put c k v = Some (True, c') \<and> wf_cache c' \<and>
                 capacity c' = capacity c \<and>
                 entries c' = abs_step (capacity c) (entries c) (Put k v))"
  using put_entries_cases [OF w, of k v] by (simp add: evicts_only_node_def)

lemma wf_cache_new: "wf_cache (LRUCache_new cap) \<and> entries (LRUCache_new cap) = []"
  by (simp add: wf_cache_def chain_def entries_def LRUCache_new_def linked_def dseg.simps)

subsection \<open>Runs of operations\<close>

lemma lru_step_wf:
  assumes w: "wf_cache c" and s: "lru_step c x = Some c'"
  shows "wf_cache c' \<and> capacity c' = capacity c \<and> entries c' = abs_step (capacity c) (entries c) x"
proof (cases x)
  case (Get k)
  with get_entries [OF w, of k] s show ?thesis by (auto split: option.splits)
next
  case (Put k v)
  with put_entries [OF w, of k v] s show ?thesis by (auto split: if_splits option.splits)
next
  case (Remove k)
  with remove_entries [OF w, of k] s show ?thesis by auto
qed

lemma lru_step_defined:
  assumes w: "wf_cache c" and "\<forall>k v. x = Put k v \<longrightarrow> \<not> evicts_only_node c k"
  shows "\<exists>c'. lru_step c x = Some c'"
proof (cases x)
  case (Get k)
  with get_entries [OF w, of k] show ?thesis by auto
next
  case (Put k v)
  with put_entries [OF w, of k v] assms(2) show ?thesis by auto
next
  case (Remove k)
  with remove_entries [OF w, of k] show ?thesis by auto
qed

lemma lru_run_from_append:
  "lru_run_from c (xs @ ys) = Option.bind (lru_run_from c xs) (\<lambda>c'. lru_run_from c' ys)"
  by (induction xs arbitrary: c) (auto split: option.splits)

lemma lru_run_snoc:
  "lru_run cap (ops @ [x]) = Option.bind (lru_run cap ops) (\<lambda>c. lru_step c x)"
proof -
  have "(\<lambda>c'. lru_run_from c' [x]) = (\<lambda>c. lru_step c x)"
    by (rule ext) (simp split: option.splits)
  then show ?thesis by (simp add: lru_run_def lru_run_from_append)
qed

lemma lru_run_wf: "lru_run cap ops = Some c \<Longrightarrow> wf_cache c \<and> capacity c = cap"
proof (induction ops arbitrary: c rule: rev_induct)
  case Nil
  then show ?case using wf_cache_new [of cap] by (auto simp: lru_run_def LRUCache_new_def)
next
  case (snoc x xs)
  then obtain c0 where c0: "lru_run cap xs = Some c0" and st: "lru_step c0 x = Some c"
    by (auto simp: lru_run_snoc split: Option.bind_splits)
  from snoc.IH [OF c0] lru_step_wf [OF _ st] show ?case by simp
qed

lemma wf_distinct_keys:
  assumes "wf_cache c"
  shows "distinct (map fst (entries c))"
proof -
  have i: "linked c (chain c)" using assms by (simp add: wf_cache_def)
  have "inj_on (\<lambda>a. fst (the (payload c a))) (set (chain c))"
  proof (rule inj_onI)
    fix a b assume a: "a \<in> set (chain c)" and b: "b \<in> set (chain c)"
      and eq: "fst (the (payload c a)) = fst (the (payload c b))"
    have "map_of (cache_map c) (fst (the (payload c a))) = Some a"
      using linked_key_of [OF i a, of "fst (the (payload c a))"] by blast
    moreover have "map_of (cache_map c) (fst (the (payload c a))) = Some b"
      using linked_key_of [OF i b, of "fst (the (payload c a))"] eq by metis
    ultimately show "a = b" by simp
  qed
  moreover have "distinct (chain c)" using i by (simp add: linked_def)
  ultimately show ?thesis
    by (simp add: linked_entries [OF i] distinct_map comp_def)
qed

lemma length_filter_key:
  "distinct (map fst xs) \<Longrightarrow> map_of xs k = Some v \<Longrightarrow>
   Suc (length (filter (\<lambda>e. fst e \<noteq> k) xs)) = length xs"
proof (induction xs)
  case Nil
  then show ?case by simp
next
  case (Cons x xs)
  show ?case
  proof (cases "fst x = k")
    case True
    then have "k \<notin> fst ` set xs" using Cons.prems by auto
    then have "filter (\<lambda>e. fst e \<noteq> k) xs = xs" by (auto simp: filter_id_conv)
    with True show ?thesis by simp
  next
    case False
    with Cons show ?thesis by (cases x) auto
  qed
qed

lemma last_access_snoc:
  "last_access (xs @ [x]) k = (if touches x k then Suc (length xs) else last_access xs k)"
  by (induction xs) (auto simp: Let_def)

lemma last_access_le: "last_access xs k \<le> length xs"
  by (induction xs) (auto simp: Let_def)

lemma more_recent_untouched:
  assumes "sorted_wrt (more_recent ops) ms" and "\<forall>n \<in> set ms. \<not> touches x (fst n)"
  shows "sorted_wrt (more_recent (ops @ [x])) ms"
  using assms
  by (induction ms) (auto simp: more_recent_def last_access_snoc)

lemma more_recent_touched:
  assumes "sorted_wrt (more_recent ops) ms" and "\<forall>n \<in> set ms. \<not> touches x (fst n)"
    and "touches x k"
  shows "sorted_wrt (more_recent (ops @ [x])) ((k, v) # ms)"
proof -
  have "\<forall>n \<in> set ms. more_recent (ops @ [x]) (k, v) n"
    using assms(2,3) last_access_le [of ops]
    by (auto simp: more_recent_def last_access_snoc less_Suc_eq_le)
  with more_recent_untouched [OF assms(1,2)] show ?thesis by simp
qed

lemma sorted_wrt_butlast: "sorted_wrt P ns \<Longrightarrow> sorted_wrt P (butlast ns)"
  by (induction ns) (auto dest: in_set_butlastD)

lemma sorted_wrt_last:
  "sorted_wrt P ns \<Longrightarrow> ns \<noteq> [] \<Longrightarrow> \<forall>n \<in> set (butlast ns). P n (last ns)"
  by (induction ns) (auto dest: in_set_butlastD)

text \<open>The order of the entries is the order of their last accesses.\<close>

lemma abs_step_recency:
  assumes "sorted_wrt (more_recent ops) xs"
  shows "sorted_wrt (more_recent (ops @ [x])) (abs_step cap xs x)"
proof (cases x)
  case (Get k)
  show ?thesis
  proof (cases "map_of xs k")
    case None
    then have "\<forall>n \<in> set xs. \<not> touches x (fst n)"
      using Get by (auto simp: map_of_eq_None_iff)
    with assms None Get show ?thesis by (simp add: more_recent_untouched)
  next
    case (Some v)
    have "sorted_wrt (more_recent ops) (filter (\<lambda>e. fst e \<noteq> k) xs)"
      using assms by (rule sorted_wrt_filter)
    then have "sorted_wrt (more_recent (ops @ [x])) ((k, v) # filter (\<lambda>e. fst e \<noteq> k) xs)"
      using Get by (intro more_recent_touched) auto
    with Some Get show ?thesis by simp
  qed
next
  case (Put k v)
  let ?ms = "case map_of xs k of
               Some _ \<Rightarrow> filter (\<lambda>e. fst e \<noteq> k) xs
             | None \<Rightarrow> if cap \<le> length xs then butlast xs else xs"
  have "sorted_wrt (more_recent ops) ?ms"
    using assms by (auto simp: sorted_wrt_butlast sorted_wrt_filter split: option.splits)
  moreover have "\<forall>n \<in> set ?ms. \<not> touches x (fst n)"
    using Put by (auto simp: map_of_eq_None_iff dest: in_set_butlastD split: option.splits)
  ultimately have "sorted_wrt (more_recent (ops @ [x])) ((k, v) # ?ms)"
    using Put by (intro more_recent_touched) auto
  with Put show ?thesis by simp
next
  case (Remove k)
  have "sorted_wrt (more_recent ops) (filter (\<lambda>e. fst e \<noteq> k) xs)"
    using assms by (rule sorted_wrt_filter)
  then have "sorted_wrt (more_recent (ops @ [x])) (filter (\<lambda>e. fst e \<noteq> k) xs)"
    using Remove by (intro more_recent_untouched) auto
  with Remove show ?thesis by simp
qed

lemma abs_step_length:
  assumes "distinct (map fst xs)" and "length xs \<le> cap" and "1 \<le> cap"
  shows "length (abs_step cap xs x) \<le> cap"
proof (cases x)
  case (Get k)
  then show ?thesis
    using assms length_filter_key [OF assms(1), of k] by (auto split: option.splits)
next
  case (Put k v)
  then show ?thesis
    using assms length_filter_key [OF assms(1), of k]
    by (cases xs) (auto split: option.splits)
next
  case (Remove k)
  then have "length (abs_step cap xs x) \<le> length xs" by simp
  with assms(2) show ?thesis by linarith
qed

text \<open>
  With a capacity of at least two the cache never evicts its only node: no run is
  undefined, the size stays within the capacity, and the entries are in the order of
  their last accesses, the least recently used one last.
\<close>

lemma lru_run_capacity_two:
  assumes "2 \<le> cap"
  shows "\<exists>c. lru_run cap ops = Some c \<and> wf_cache c \<and> capacity c = cap \<and>
           lru_size c \<le> cap \<and> sorted_wrt (more_recent ops) (entries c)"
proof (induction ops rule: rev_induct)
  case Nil
  then show ?case
    using wf_cache_new [of cap]
    by (simp add: lru_run_def lru_size_def LRUCache_new_def)
next
  case (snoc x xs)
  then obtain c where run: "lru_run cap xs = Some c" and w: "wf_cache c"
    and cap: "capacity c = cap" and sz: "lru_size c \<le> cap"
    and rec: "sorted_wrt (more_recent xs) (entries c)" by blast
  have i: "linked c (chain c)" using w by (simp add: wf_cache_def)
  have len: "length (entries c) \<le> cap" using sz linked_size [OF i] by simp
  have "\<forall>k v. x = Put k v \<longrightarrow> \<not> evicts_only_node c k"
    using assms cap by (simp add: evicts_only_node_def)
  from lru_step_defined [OF w this] obtain c' where st: "lru_step c x = Some c'" by blast
  from lru_step_wf [OF w st] have w': "wf_cache c'" and cap': "capacity c' = cap"
    and e': "entries c' = abs_step cap (entries c) x" using cap by simp_all
  have i': "linked c' (chain c')" using w' by (simp add: wf_cache_def)
  have "length (entries c') \<le> cap"
    unfolding e' using wf_distinct_keys [OF w] len assms by (intro abs_step_length) auto
  then have "lru_size c' \<le> cap" using linked_size [OF i'] by simp
  moreover have "sorted_wrt (more_recent (xs @ [x])) (entries c')"
    unfolding e' using rec by (rule abs_step_recency)
  moreover have "lru_run cap (xs @ [x]) = Some c'"
    using run st by (simp add: lru_run_snoc)
  ultimately show ?case using w' cap' by blast
qed

subsection \<open>Eviction and promotion\<close>

lemma evict_entries:
  assumes w: "wf_cache c" and l: "2 \<le> length (entries c)"
  shows "\<exists>c'. evict_lru c = Some c' \<and> wf_cache c' \<and> entries c' = butlast (entries c)"
proof -
  have i: "linked c (chain c)" using w by (simp add: wf_cache_def)
  have len: "length (chain c) = length (entries c)" using linked_entries [OF i] by simp
  with l have "chain c \<noteq> []" by auto
  then obtain bs t where ch: "chain c = bs @ [t]" by (cases "chain c" rule: rev_cases) auto
  with len l have ne: "bs \<noteq> []" by auto
  have d: "distinct (bs @ [t])" using i ch by (simp add: linked_def)
  from evict_lru_linked [OF i [unfolded ch] ne] obtain c' where
    ev: "evict_lru c = Some c'" and i': "linked c' bs"
    and p: "payload c' = (payload c)(t := None)" by blast
  have "entries c' = map (\<lambda>a. the (payload c' a)) bs" by (rule linked_entries [OF i'])
  also have "\<dots> = map (\<lambda>a. the (payload c a)) bs" using d p by (intro map_cong) auto
  also have "\<dots> = butlast (entries c)" using linked_entries [OF i] ch by simp
  finally show ?thesis using ev wf_cacheI [OF i'] by blast
qed

text \<open>
  Claim C7. In every cache reached by a run of operations, \<open>get\<close> of a cached key
  returns the stored value and moves the node of the key to the head of the list,
  keeping the order of the other nodes, so that the key survives the next eviction
  whenever the list has another node; \<open>get\<close> of a key that is not cached returns nothing
  and leaves the cache as it was.
\<close>

theorem lru_get_hit_promotes:
  assumes "lru_run cap ops = Some c"
  shows "(\<forall>v. map_of (entries c) k = Some v \<longrightarrow>
            (\<exists>c'. lru_get c k = Some (Some v, c') \<and>
                  entries c' = (k, v) # filter (\<lambda>e. fst e \<noteq> k) (entries c) \<and>
                  (2 \<le> length (entries c') \<longrightarrow>
                     (\<exists>c''. evict_lru c' = Some c'' \<and> map_of (entries c'') k = Some v)))) \<and>
         (map_of (entries c) k = None \<longrightarrow> lru_get c k = Some (None, c))"
proof -
  have w: "wf_cache c" using lru_run_wf [OF assms] by simp
  from get_entries [OF w, of k] obtain c' where
    g: "lru_get c k = Some (map_of (entries c) k, c')" and w': "wf_cache c'"
    and e: "entries c' = (case map_of (entries c) k of None \<Rightarrow> entries c
                          | Some v \<Rightarrow> (k, v) # filter (\<lambda>e. fst e \<noteq> k) (entries c))"
    and m: "map_of (entries c) k = None \<longrightarrow> c' = c" by (elim exE conjE)
  have hit: "\<exists>c''. evict_lru c' = Some c'' \<and> map_of (entries c'') k = Some v"
    if v: "map_of (entries c) k = Some v" and l: "2 \<le> length (entries c')" for v
  proof -
    from evict_entries [OF w' l] obtain c'' where
      ev: "evict_lru c' = Some c''" and b: "entries c'' = butlast (entries c')" by blast
    have "entries c' = (k, v) # filter (\<lambda>e. fst e \<noteq> k) (entries c)" using e v by simp
    moreover from this l have "filter (\<lambda>e. fst e \<noteq> k) (entries c) \<noteq> []" by auto
    ultimately have "map_of (entries c'') k = Some v" using b by simp
    with ev show ?thesis by blast
  qed
  show ?thesis
  proof (intro conjI allI impI)
    fix v assume v: "map_of (entries c) k = Some v"
    then have "lru_get c k = Some (Some v, c')"
      and "entries c' = (k, v) # filter (\<lambda>e. fst e \<noteq> k) (entries c)"
      using g e by simp_all
    then show "\<exists>c'. lru_get c k = Some (Some v, c') \<and>
                  entries c' = (k, v) # filter (\<lambda>e. fst e \<noteq> k) (entries c) \<and>
                  (2 \<le> length (entries c') \<longrightarrow>
                     (\<exists>c''. evict_lru c' = Some c'' \<and> map_of (entries c'') k = Some v))"
      using hit [OF v] by blast
  next
    assume "map_of (entries c) k = None"
    then show "lru_get c k = Some (None, c)" using g m by simp
  qed
qed

theorem lru_get_hit_promotes_witness:
  "lru_run 2 [Put ''a'' ''1'', Put ''b'' ''2''] =
     Some \<lparr>capacity = 2, cache_map = [(''a'', 0), (''b'', 1)], head = Some 1, tail = Some 0,
           heap = [(0, \<lparr>key = ''a'', val = ''1'', prev = Some 1, nxt = None\<rparr>),
                   (1, \<lparr>key = ''b'', val = ''2'', prev = None, nxt = Some 0\<rparr>)],
           next_free = 2\<rparr> \<and>
   map_option entries (lru_run 2 [Put ''a'' ''1'', Put ''b'' ''2'']) =
     Some [(''b'', ''2''), (''a'', ''1'')] \<and>
   map_option (\<lambda>(r, c'). (r, entries c'))
       (Option.bind (lru_run 2 [Put ''a'' ''1'', Put ''b'' ''2'']) (\<lambda>c. lru_get c ''a'')) =
     Some (Some ''1'', [(''a'', ''1''), (''b'', ''2'')]) \<and>
   map_option (map_option entries)
       (map_option (evict_lru \<circ> snd)
          (Option.bind (lru_run 2 [Put ''a'' ''1'', Put ''b'' ''2'']) (\<lambda>c. lru_get c ''a''))) =
     Some (Some [(''a'', ''1'')]) \<and>
   Option.bind (lru_run 2 [Put ''a'' ''1'', Put ''b'' ''2'']) (\<lambda>c. lru_get c ''z'') =
     map_option (Pair None) (lru_run 2 [Put ''a'' ''1'', Put ''b'' ''2''])"
proof -
  have r: "lru_run 2 [Put ''a'' ''1'', Put ''b'' ''2''] =
     Some \<lparr>capacity = 2, cache_map = [(''a'', 0), (''b'', 1)], head = Some 1, tail = Some 0,
           heap = [(0, \<lparr>key = ''a'', val = ''1'', prev = Some 1, nxt = None\<rparr>),
                   (1, \<lparr>key = ''b'', val = ''2'', prev = None, nxt = Some 0\<rparr>)],
           next_free = 2\<rparr>"
    by code_simp
  have e: "map_option entries (lru_run 2 [Put ''a'' ''1'', Put ''b'' ''2'']) =
     Some [(''b'', ''2''), (''a'', ''1'')]"
    by code_simp
  have g: "map_option (\<lambda>(r, c'). (r, entries c'))
       (Option.bind (lru_run 2 [Put ''a'' ''1'', Put ''b'' ''2'']) (\<lambda>c. lru_get c ''a'')) =
     Some (Some ''1'', [(''a'', ''1''), (''b'', ''2'')])"
    by code_simp
  have v: "map_option (map_option entries)
       (map_option (evict_lru \<circ> snd)
          (Option.bind (lru_run 2 [Put ''a'' ''1'', Put ''b'' ''2'']) (\<lambda>c. lru_get c ''a''))) =
     Some (Some [(''a'', ''1'')])"
    by code_simp
  have z: "Option.bind (lru_run 2 [Put ''a'' ''1'', Put ''b'' ''2'']) (\<lambda>c. lru_get c ''z'') =
     map_option (Pair None) (lru_run 2 [Put ''a'' ''1'', Put ''b'' ''2''])"
    by code_simp
  show ?thesis
    using lru_get_hit_promotes [OF r, of "''a''"] r e g v z by blast
qed

text \<open>
  Claim C6 fails on the code for the capacity 1, the capacity of the cache of the
  server. After \<open>put a\<close> the list is the single node of \<open>a\<close>. The next \<open>put b\<close> finds the
  cache full and calls \<open>evict_lru\<close>, which erases \<open>a\<close> from the map, sets \<open>tail_\<close> to the
  null \<open>prev\<close> of the node and deletes the node, but leaves \<open>head_\<close> pointing at it: the
  heap is empty and \<open>head\<close> is still the address 0. \<open>put\<close> then sees a \<open>head_\<close> that is not
  null and writes the \<open>prev\<close> field of the deleted node, so the run is undefined; so is
  the second SET of a new key sent to a fresh server. (\<open>remove\<close> of the only node does
  reset both pointers.)
\<close>

theorem evict_only_node_leaves_head_dangling:
  "lru_run 1 [Put ''a'' ''1''] =
     Some \<lparr>capacity = 1, cache_map = [(''a'', 0)], head = Some 0, tail = Some 0,
           heap = [(0, \<lparr>key = ''a'', val = ''1'', prev = None, nxt = None\<rparr>)], next_free = 1\<rparr> \<and>
   Option.bind (lru_run 1 [Put ''a'' ''1'']) evict_lru =
     Some \<lparr>capacity = 1, cache_map = [], head = Some 0, tail = None, heap = [], next_free = 1\<rparr> \<and>
   lru_run 1 [Put ''a'' ''1'', Put ''b'' ''2''] = None \<and>
   map_option (head \<circ> snd)
     (Option.bind (lru_run 1 [Put ''a'' ''1'']) (\<lambda>c. lru_remove c ''a'')) = Some None \<and>
   capacity (cache (storage (Server_new []))) = 1 \<and>
   handle_client_data (Server_new []) []
       [resp_command [''SET'', ''a'', ''1''], resp_command [''SET'', ''b'', ''2'']] =
     ([''+OK'' @ CRLF],
      fst (snd (handle_client_data (Server_new []) [] [resp_command [''SET'', ''a'', ''1'']])),
      Undefined_behaviour)"
  by code_simp

section \<open>Properties of the request parser and the server\<close>

lemma isdigit_char_of: "d < 10 \<Longrightarrow> isdigit (char_of (48 + d :: nat))"
  by (simp add: isdigit_def)

lemma to_string_digits: "c \<in> set (to_string n) \<Longrightarrow> isdigit c"
proof (induction n rule: to_string.induct)
  case (1 n)
  then show ?case
    by (subst (asm) (2) to_string.simps) (auto simp: isdigit_char_of split: if_splits)
qed

lemma to_string_nonempty: "to_string n \<noteq> []"
  by (subst to_string.simps) simp

lemma digits_val_snoc: "digits_val (ds @ [c]) = 10 * digits_val ds + ((of_char c :: nat) - 48)"
  by (simp add: digits_val_def)

lemma digits_val_to_string: "digits_val (to_string n) = n"
proof (induction n rule: to_string.induct)
  case (1 n)
  show ?case
  proof (cases "n < 10")
    case True
    then show ?thesis
      by (subst to_string.simps) (simp add: digits_val_def)
  next
    case False
    then have "digits_val (to_string (n div 10)) = n div 10" using 1 by simp
    with False show ?thesis
      by (subst to_string.simps) (simp add: digits_val_snoc)
  qed
qed

lemma isdigit_facts:
  "isdigit c \<Longrightarrow> \<not> isspace c \<and> c \<noteq> CR \<and> c \<noteq> CHR ''-'' \<and> c \<noteq> CHR ''+''"
  by (auto simp: isdigit_def isspace_def)

lemma to_string_no_CR: "CR \<notin> set (to_string n)"
  using to_string_digits isdigit_facts by blast

lemma to_string_takeWhile: "takeWhile isdigit (to_string n @ rest) = to_string n @ takeWhile isdigit rest"
  by (rule takeWhile_append2) (rule to_string_digits)

lemma to_string_takeWhile_self: "takeWhile isdigit (to_string n) = to_string n"
  using to_string_takeWhile [of n "[]"] by simp

lemma to_string_hd: "isdigit (hd (to_string n))"
  using to_string_nonempty [of n] to_string_digits [of "hd (to_string n)" n] by simp

lemma to_string_dropWhile: "dropWhile isspace (to_string n) = to_string n"
  using to_string_nonempty [of n] to_string_hd [of n] isdigit_facts [of "hd (to_string n)"]
  by (cases "to_string n") auto

lemma stoi_to_string: "n < 2 ^ 31 \<Longrightarrow> stoi (to_string n) = Some (int n)"
  using to_string_nonempty [of n] to_string_hd [of n] isdigit_facts [of "hd (to_string n)"]
  by (simp add: stoi_def Let_def to_string_dropWhile to_string_takeWhile_self digits_val_to_string)

lemma find_crlf_append:
  "CR \<notin> set s \<Longrightarrow> find_crlf (s @ CR # LF # rest) = Some (length s)"
proof (induction s)
  case Nil
  then show ?case by simp
next
  case (Cons a s)
  then show ?case by (cases s) auto
qed

lemma read_token_Nil: "read_token [] = ([], [])"
  by (simp add: read_token_def)

lemma read_token_space: "read_token (CHR '' '' # s) = read_token s"
  by (simp add: read_token_def isspace_def)

lemma read_token_word:
  assumes "t \<noteq> []" and "\<forall>c \<in> set t. \<not> isspace c"
  shows "read_token (t @ CHR '' '' # rest) = (t, CHR '' '' # rest)"
    and "read_token t = (t, [])"
proof -
  obtain a t' where t: "t = a # t'" using assms(1) by (cases t) auto
  have sp: "isspace (CHR '' '')" by (simp add: isspace_def)
  have tw: "takeWhile (\<lambda>c. \<not> isspace c) (t @ CHR '' '' # rest) = t"
    using assms(2) sp by (simp add: takeWhile_append2)
  have dw: "dropWhile (\<lambda>c. \<not> isspace c) (t @ CHR '' '' # rest) = CHR '' '' # rest"
    using assms(2) sp by (simp add: dropWhile_append2)
  have d0: "dropWhile isspace (t @ CHR '' '' # rest) = t @ CHR '' '' # rest"
    using assms(2) t by simp
  show "read_token (t @ CHR '' '' # rest) = (t, CHR '' '' # rest)"
    unfolding read_token_def Let_def d0 tw dw ..
  have "dropWhile isspace t = t" using assms(2) t by simp
  moreover have "takeWhile (\<lambda>c. \<not> isspace c) t = t" using assms(2) by simp
  moreover have "dropWhile (\<lambda>c. \<not> isspace c) t = []" using assms(2) by simp
  ultimately show "read_token t = (t, [])"
    by (simp add: read_token_def Let_def)
qed

lemma bulk_parse:
  assumes "length a + 2 < 2 ^ 31"
  shows "parse_args (Suc n) (bulk a @ rest) acc = parse_args n rest (acc @ [a])"
proof -
  let ?hdr = "CHR ''$'' # to_string (length a)"
  have buf: "bulk a @ rest = ?hdr @ CR # LF # (a @ CRLF @ rest)"
    by (simp add: bulk_def)
  have nocr: "CR \<notin> set ?hdr" using to_string_no_CR by simp
  have f: "find_crlf (bulk a @ rest) = Some (length ?hdr)"
    unfolding buf using nocr by (rule find_crlf_append)
  have tk: "take (length ?hdr) (bulk a @ rest) = ?hdr"
    unfolding buf by simp
  have dr: "drop (length ?hdr + 2) (bulk a @ rest) = a @ CRLF @ rest"
    unfolding buf by simp
  have st: "stoi (to_string (length a)) = Some (int (length a))"
    using assms by (intro stoi_to_string) simp
  have w: "size_t_of (int_wrap (int (length a) + 2)) = length a + 2"
  proof -
    have "int (length a) + 2 < 2 ^ 31" using assms by simp
    then have "int_wrap (int (length a) + 2) = int (length a) + 2"
      by (simp add: int_wrap_def)
    moreover have "(int (length a) + 2) mod 2 ^ 64 = int (length a) + 2"
      using \<open>int (length a) + 2 < 2 ^ 31\<close> by simp
    ultimately show ?thesis by (simp add: size_t_of_def)
  qed
  show ?thesis
    unfolding parse_args.simps f option.case Let_def tk dr
    by (simp add: st w)
qed

lemma bulks_parse:
  "\<forall>a \<in> set as. length a + 2 < 2 ^ 31 \<Longrightarrow>
   parse_args (length as) (concat (map bulk as) @ rest) acc = Complete (acc @ as) rest"
proof (induction as arbitrary: acc)
  case Nil
  then show ?case by simp
next
  case (Cons a as)
  then have "parse_args (Suc (length as)) (bulk a @ (concat (map bulk as) @ rest)) acc
      = parse_args (length as) (concat (map bulk as) @ rest) (acc @ [a])"
    by (intro bulk_parse) simp
  with Cons show ?case by simp
qed

lemma loop_body_frame:
  assumes "as \<noteq> []" and "length as < 2 ^ 31" and "\<forall>a \<in> set as. length a + 2 < 2 ^ 31"
  shows "loop_body srv (resp_command as @ rest) =
     (case process_command srv (join_args as) of
        None \<Rightarrow> Undefined
      | Some (response, srv') \<Rightarrow> Next srv' rest [response])"
proof -
  let ?hdr = "CHR ''*'' # to_string (length as)"
  have buf: "resp_command as @ rest = ?hdr @ CR # LF # (concat (map bulk as) @ rest)"
    by (simp add: resp_command_def)
  have nocr: "CR \<notin> set ?hdr" using to_string_no_CR by simp
  have f: "find_crlf (resp_command as @ rest) = Some (length ?hdr)"
    unfolding buf using nocr by (rule find_crlf_append)
  have tk: "take (length ?hdr) (resp_command as @ rest) = ?hdr"
    unfolding buf by simp
  have dr: "drop (length ?hdr + 2) (resp_command as @ rest) = concat (map bulk as) @ rest"
    unfolding buf by simp
  have st: "stoi (to_string (length as)) = Some (int (length as))"
    using assms(2) by (rule stoi_to_string)
  have pa: "parse_args (length as) (concat (map bulk as) @ rest) [] = Complete as rest"
    using bulks_parse [OF assms(3), of rest "[]"] by simp
  show ?thesis
    unfolding loop_body_def f option.case Let_def tk dr
    using assms(1) by (simp add: st pa)
qed

lemma process_buffer_Nil: "process_buffer srv [] = ([], srv, Waiting [])"
  by (simp add: process_buffer.simps loop_body_def)

lemma process_buffer_frame:
  assumes "as \<noteq> []" and "length as < 2 ^ 31" and "\<forall>a \<in> set as. length a + 2 < 2 ^ 31"
  shows "process_buffer srv (resp_command as @ rest) =
     (case process_command srv (join_args as) of
        None \<Rightarrow> ([], srv, Undefined_behaviour)
      | Some (response, srv') \<Rightarrow>
          (case process_buffer srv' rest of (rs, srv'', b) \<Rightarrow> (response # rs, srv'', b)))"
  by (subst process_buffer.simps)
     (simp add: loop_body_frame [OF assms] split: prod.splits option.splits)

lemma to_string_length: "n < 10 ^ d \<Longrightarrow> 0 < d \<Longrightarrow> length (to_string n) \<le> d"
proof (induction n arbitrary: d rule: to_string.induct)
  case (1 n)
  show ?case
  proof (cases "n < 10")
    case True
    then show ?thesis using 1(3) by (subst to_string.simps) simp
  next
    case False
    obtain d' where d: "d = Suc d'" using 1(3) by (cases d) auto
    have "d' \<noteq> 0" using False 1(2) d by (cases d') auto
    moreover have "n div 10 < 10 ^ d'"
      using 1(2) d by (simp add: less_mult_imp_div_less mult.commute)
    ultimately have "length (to_string (n div 10)) \<le> d'"
      using 1(1) [OF False, of d'] by simp
    with False d show ?thesis by (subst to_string.simps) simp
  qed
qed

lemma bulk_length: "length (bulk a) = length (to_string (length a)) + length a + 5"
  by (simp add: bulk_def)

lemma bulks_length: "a \<in> set as \<Longrightarrow> length a + 5 \<le> length (concat (map bulk as))"
  by (induction as) (auto simp: bulk_length)

lemma bulks_count: "length as \<le> length (concat (map bulk as))"
  by (induction as) (auto simp: bulk_length)

lemma frame_in_one_read:
  assumes "length (resp_command as) \<le> 4096"
  shows "length as < 2 ^ 31" and "\<forall>a \<in> set as. length a + 2 < 2 ^ 31"
proof -
  have l: "length (concat (map bulk as)) \<le> 4096"
    using assms by (simp add: resp_command_def)
  show "length as < 2 ^ 31" using bulks_count [of as] l by simp
  show "\<forall>a \<in> set as. length a + 2 < 2 ^ 31"
  proof
    fix a assume "a \<in> set as"
    from bulks_length [OF this] l show "length a + 2 < 2 ^ 31" by simp
  qed
qed

lemma handle_one_read:
  "length chunk \<le> 4096 \<Longrightarrow> handle_client_data srv buf [chunk] = process_buffer srv (buf @ chunk)"
  by (cases "process_buffer srv (buf @ chunk)"; cases "snd (snd (process_buffer srv (buf @ chunk)))")
     (auto simp: read_bytes_def)

lemma handle_one_frame:
  assumes "as \<noteq> []" and "length (resp_command as) \<le> 4096"
  shows "handle_client_data srv [] [resp_command as] =
     (case process_command srv (join_args as) of
        None \<Rightarrow> ([], srv, Undefined_behaviour)
      | Some (response, srv') \<Rightarrow> ([response], srv', Waiting []))"
  using process_buffer_frame [OF assms(1) frame_in_one_read [OF assms(2)], of srv "[]"]
  by (simp add: handle_one_read [OF assms(2)] process_buffer_Nil
        split: prod.splits option.splits del: handle_client_data.simps)

lemma abs_step_Put_lookup: "map_of (abs_step cap xs (Put k v)) k = Some v"
  by simp

lemma put_cache:
  "put e k v =
     (case lru_put (cache e) k v of
        None \<Rightarrow> None
      | Some (ok, c) \<Rightarrow> Some (True, e\<lparr>cache := c, write_queue := write_queue e @ [(k, v)]\<rparr>))"
  by (auto simp: put_def lru_put_def split: option.splits Option.bind_splits)

lemma put_cached:
  assumes "wf_cache (cache e)" and "\<not> evicts_only_node (cache e) k"
  shows "\<exists>c. lru_put (cache e) k v = Some (True, c) \<and> wf_cache c \<and>
           map_of (entries c) k = Some v \<and>
           put e k v = Some (True, e\<lparr>cache := c, write_queue := write_queue e @ [(k, v)]\<rparr>)"
proof -
  from put_entries [OF assms(1), of k v] assms(2) obtain c where
    p: "lru_put (cache e) k v = Some (True, c)" and w: "wf_cache c"
    and e: "entries c = abs_step (capacity (cache e)) (entries (cache e)) (Put k v)"
    by auto
  have "map_of (entries c) k = Some v" unfolding e by (rule abs_step_Put_lookup)
  with p w show ?thesis by (simp add: put_cache)
qed

lemma get_cached:
  assumes "wf_cache (cache e)" and "map_of (entries (cache e)) k = Some v"
  shows "\<exists>e'. get e k = Some (v, e')"
proof -
  from get_entries [OF assms(1), of k] assms(2) obtain c' where
    "lru_get (cache e) k = Some (Some v, c')" by auto
  then show ?thesis by (simp add: get_def get_ref_def)
qed

lemma worker_cache [simp]: "cache (async_write_worker e) = cache e"
  by (simp add: async_write_worker_def worker_pop_def worker_write_def
        split: list.splits prod.splits option.splits)

lemma workers_cache [simp]: "cache ((async_write_worker ^^ n) e) = cache e"
  by (induction n) simp_all

lemma process_command_SET:
  assumes "k \<noteq> []" and "v \<noteq> []"
    and "\<forall>c \<in> set k. \<not> isspace c" and "\<forall>c \<in> set v. \<not> isspace c"
  shows "process_command srv (join_args [''SET'', k, v]) =
           (case lru_put (cache (storage srv)) k v of
              None \<Rightarrow> None
            | Some (ok, c) \<Rightarrow>
                Some (''+OK'' @ CRLF,
                      srv\<lparr>storage := (storage srv)\<lparr>cache := c,
                             write_queue := write_queue (storage srv) @ [(k, v)]\<rparr>\<rparr>))"
proof -
  have cmd: "read_token (''SET'' @ CHR '' '' # k @ CHR '' '' # v) = (''SET'', CHR '' '' # k @ CHR '' '' # v)"
    by (rule read_token_word) (simp_all add: isspace_def)
  have key: "read_token (CHR '' '' # k @ CHR '' '' # v) = (k, CHR '' '' # v)"
    using read_token_word(1) [OF assms(1,3)] by (simp add: read_token_space)
  have val: "read_token (CHR '' '' # v) = (v, [])"
    using read_token_word(2) [OF assms(2,4)] by (simp add: read_token_space)
  have j: "join_args [''SET'', k, v] = ''SET'' @ CHR '' '' # k @ CHR '' '' # v" by simp
  show ?thesis
    unfolding process_command_def j cmd
    using assms(1,2)
    by (simp add: key val toupper_def set_kv_def put_cache split: option.splits)
qed

lemma process_command_SET_empty:
  assumes "k = [] \<or> v = []"
    and "\<forall>c \<in> set k. \<not> isspace c" and "\<forall>c \<in> set v. \<not> isspace c"
  shows "process_command srv (join_args [''SET'', k, v]) = Some (err_args ''set'', srv)"
proof -
  have cmd: "read_token (''SET'' @ CHR '' '' # k @ CHR '' '' # v) = (''SET'', CHR '' '' # k @ CHR '' '' # v)"
    by (rule read_token_word) (simp_all add: isspace_def)
  have j: "join_args [''SET'', k, v] = ''SET'' @ CHR '' '' # k @ CHR '' '' # v" by simp
  have "\<exists>t r. read_token (CHR '' '' # k @ CHR '' '' # v) = (t, r) \<and>
          (t = [] \<or> fst (read_token r) = [])"
  proof (cases "k = []")
    case True
    show ?thesis
    proof (cases "v = []")
      case True
      with \<open>k = []\<close> show ?thesis by (simp add: read_token_space read_token_Nil)
    next
      case False
      then have "read_token v = (v, [])" using assms(3) by (intro read_token_word(2)) auto
      with True show ?thesis by (simp add: read_token_space read_token_Nil)
    qed
  next
    case False
    then have v: "v = []" using assms(1) by simp
    have "read_token (k @ CHR '' '' # []) = (k, CHR '' '' # [])"
      using False assms(2) by (intro read_token_word(1)) auto
    with v show ?thesis by (simp add: read_token_space read_token_Nil)
  qed
  then obtain t r where kr: "read_token (CHR '' '' # k @ CHR '' '' # v) = (t, r)"
    and e: "t = [] \<or> fst (read_token r) = []" by blast
  show ?thesis
    unfolding process_command_def j cmd
    using e by (auto simp: kr toupper_def split: prod.splits)
qed

lemma process_command_GET:
  assumes "k \<noteq> []" and "\<forall>c \<in> set k. \<not> isspace c"
  shows "process_command srv (join_args [''GET'', k]) =
           (case get (storage srv) k of
              None \<Rightarrow> None
            | Some (v, e) \<Rightarrow> Some (get_reply v, srv\<lparr>storage := e\<rparr>))"
proof -
  have cmd: "read_token (''GET'' @ CHR '' '' # k) = (''GET'', CHR '' '' # k)"
    by (rule read_token_word) (simp_all add: isspace_def)
  have key: "read_token (CHR '' '' # k) = (k, [])"
    using read_token_word(2) [OF assms] by (simp add: read_token_space)
  have j: "join_args [''GET'', k] = ''GET'' @ CHR '' '' # k" by simp
  show ?thesis
    unfolding process_command_def j cmd
    using assms(1)
    by (simp add: key toupper_def split: prod.splits option.splits)
qed

text \<open>
  Claim C1, as amended. Take a server whose cache is well formed and does not have to
  evict its only node for the key (it is empty, or holds the key, or holds at least two
  entries). For every key and value that are not empty, contain no white space and are
  within the size bounds, the request SET k v is answered \<open>+OK\<close> and a following GET k on
  the same connection is answered with the bulk string of \<open>v\<close>, whether the two requests
  come in two reads, with any number of turns of the writer thread in between, or in
  one read.
\<close>

theorem set_then_get_roundtrip:
  assumes "k \<noteq> []" and "v \<noteq> []"
    and "\<forall>c \<in> set k. \<not> isspace c" and "\<forall>c \<in> set v. \<not> isspace c"
    and "length k \<le> 256" and "length v \<le> 1024"
    and "wf_cache (cache (storage srv))" and "\<not> evicts_only_node (cache (storage srv)) k"
  shows "(let r1 = handle_client_data srv [] [resp_command [''SET'', k, v]]
          in fst r1 = [''+OK'' @ CRLF] \<and> snd (snd r1) = Waiting [] \<and>
             (let r2 = handle_client_data (worker_turns n (fst (snd r1))) [] [resp_command [''GET'', k]]
              in fst r2 = [bulk v] \<and> snd (snd r2) = Waiting [])) \<and>
         fst (handle_client_data srv [] [resp_command [''SET'', k, v] @ resp_command [''GET'', k]])
           = [''+OK'' @ CRLF, bulk v]"
proof -
  from put_cached [OF assms(7,8), of v] obtain c where
    p: "lru_put (cache (storage srv)) k v = Some (True, c)" and w: "wf_cache c"
    and m: "map_of (entries c) k = Some v" by blast
  let ?srv1 = "srv\<lparr>storage := (storage srv)\<lparr>cache := c,
                        write_queue := write_queue (storage srv) @ [(k, v)]\<rparr>\<rparr>"
  have ts: "length (to_string (length k)) \<le> 3" "length (to_string (length v)) \<le> 4"
    using assms(5,6) by (auto intro!: to_string_length)
  have t3: "length (to_string n) = 1" if "n < 10" for n
    using that by (subst to_string.simps) simp
  have set_len: "length (resp_command [''SET'', k, v]) \<le> 1310"
    using ts assms(5,6) by (simp add: resp_command_def bulk_length t3)
  have get_len: "length (resp_command [''GET'', k]) \<le> 277"
    using ts assms(5) by (simp add: resp_command_def bulk_length t3)
  have fits: "length (resp_command [''SET'', k, v]) \<le> 4096"
    "length (resp_command [''GET'', k]) \<le> 4096"
    "length (resp_command [''SET'', k, v] @ resp_command [''GET'', k]) \<le> 4096"
    using set_len get_len by simp_all
  note lens = frame_in_one_read [OF fits(1)] frame_in_one_read [OF fits(2)]
  have r1: "handle_client_data srv [] [resp_command [''SET'', k, v]] = ([''+OK'' @ CRLF], ?srv1, Waiting [])"
    using handle_one_frame [OF _ fits(1), of srv]
    by (simp add: process_command_SET [OF assms(1-4)] p del: join_args.simps handle_client_data.simps)
  have hit: "\<exists>e'. get (storage (worker_turns m ?srv1)) k = Some (v, e')" for m
    by (rule get_cached) (simp_all add: worker_turns_def w m)
  have r2: "fst (handle_client_data s [] [resp_command [''GET'', k]]) = [bulk v] \<and>
            snd (snd (handle_client_data s [] [resp_command [''GET'', k]])) = Waiting []"
    if "\<exists>e'. get (storage s) k = Some (v, e')" for s
    using handle_one_frame [OF _ fits(2), of s] assms(2) that
    by (auto simp: process_command_GET [OF assms(1,3)] get_reply_def
          simp del: join_args.simps handle_client_data.simps)
  from hit [of 0] obtain e' where
    g: "get ((storage srv)\<lparr>cache := c, write_queue := write_queue (storage srv) @ [(k, v)]\<rparr>) k
          = Some (v, e')"
    by (auto simp: worker_turns_def)
  have "process_buffer ?srv1 (resp_command [''GET'', k] @ []) =
      ([bulk v], ?srv1\<lparr>storage := e'\<rparr>, Waiting [])"
    using assms(2)
    by (subst process_buffer_frame [OF _ lens(3,4)])
       (simp_all add: process_command_GET [OF assms(1,3)] g get_reply_def process_buffer_Nil
          del: join_args.simps)
  then have pipelined:
    "process_buffer srv (resp_command [''SET'', k, v] @ resp_command [''GET'', k]) =
       ([''+OK'' @ CRLF, bulk v], ?srv1\<lparr>storage := e'\<rparr>, Waiting [])"
    by (subst process_buffer_frame [OF _ lens(1,2)])
       (simp_all add: process_command_SET [OF assms(1-4)] p del: join_args.simps)
  have both: "fst (handle_client_data srv [] [resp_command [''SET'', k, v] @ resp_command [''GET'', k]]) =
      [''+OK'' @ CRLF, bulk v]"
    using handle_one_read [OF fits(3), of srv "[]"] by (simp add: pipelined del: handle_client_data.simps)
  show ?thesis
    using r2 [OF hit, of n]
    by (simp add: r1 both Let_def del: handle_client_data.simps)
qed

theorem set_then_get_roundtrip_witness:
  "(let r1 = handle_client_data (Server_new []) [] [resp_command [''SET'', ''foo'', ''bar'']]
    in fst r1 = [''+OK'' @ CRLF] \<and> snd (snd r1) = Waiting [] \<and>
       (let r2 = handle_client_data (worker_turns 1 (fst (snd r1))) [] [resp_command [''GET'', ''foo'']]
        in fst r2 = [bulk ''bar''] \<and> snd (snd r2) = Waiting [])) \<and>
   fst (handle_client_data (Server_new []) [] [resp_command [''SET'', ''foo'', ''bar''] @ resp_command [''GET'', ''foo'']])
     = [''+OK'' @ CRLF, bulk ''bar'']"
  using set_then_get_roundtrip [of "''foo''" "''bar''" "Server_new []" 1] wf_cache_new [of 1]
  by (simp add: isspace_def evicts_only_node_def Server_new_def StorageEngine_new_def)

text \<open>
  Claim C1 as stated fails for the empty value, which is within the size bounds:
  \<open>process_command\<close> answers the SET with an error and the GET with nil.
\<close>

theorem set_empty_value_counterexample:
  "length ''foo'' \<le> 256 \<and> length ([] :: string) \<le> 1024 \<and>
   fst (handle_client_data (Server_new []) [] [resp_command [''SET'', ''foo'', []], resp_command [''GET'', ''foo'']])
     = [err_args ''set'', nil_reply] \<and>
   fst (handle_client_data (Server_new []) [] [resp_command [''SET'', ''foo'', []], resp_command [''GET'', ''foo'']])
     \<noteq> [''+OK'' @ CRLF, bulk []]"
  by code_simp

text \<open>
  Claim C4, as amended. The ingress path checks only that key and value are not empty;
  it has no bound on their lengths. Take a SET request that arrives in one \<open>read\<close> (at
  most 4096 bytes), with a key and a value without white space. If the key or the
  value is empty, it is answered with the error for a wrong number of arguments, the
  connection keeps running with an empty buffer and the server is unchanged. Every
  other such request goes to \<open>put\<close> of the cache, whatever the lengths, and when that
  returns it is answered \<open>+OK\<close> and the pair is appended to the queue of pending writes.
  In a well-formed cache that does not have to evict its only node, \<open>put\<close> returns and
  the cache then holds the pair.
\<close>

theorem ingress_checks_emptiness_only:
  assumes "\<forall>c \<in> set k. \<not> isspace c" and "\<forall>c \<in> set v. \<not> isspace c"
    and "length (resp_command [''SET'', k, v]) \<le> 4096"
  shows "handle_client_data srv [] [resp_command [''SET'', k, v]] =
           (if k = [] \<or> v = [] then ([err_args ''set''], srv, Waiting [])
            else (case lru_put (cache (storage srv)) k v of
                    None \<Rightarrow> ([], srv, Undefined_behaviour)
                  | Some (ok, c) \<Rightarrow>
                      ([''+OK'' @ CRLF],
                       srv\<lparr>storage := (storage srv)\<lparr>cache := c,
                              write_queue := write_queue (storage srv) @ [(k, v)]\<rparr>\<rparr>,
                       Waiting []))) \<and>
         (wf_cache (cache (storage srv)) \<and> \<not> evicts_only_node (cache (storage srv)) k \<longrightarrow>
            (\<exists>c. lru_put (cache (storage srv)) k v = Some (True, c) \<and>
                 map_of (entries c) k = Some v))"
proof -
  have frame: "handle_client_data srv [] [resp_command [''SET'', k, v]] =
     (case process_command srv (join_args [''SET'', k, v]) of
        None \<Rightarrow> ([], srv, Undefined_behaviour)
      | Some (response, srv') \<Rightarrow> ([response], srv', Waiting []))"
    by (rule handle_one_frame [OF _ assms(3)]) simp
  have "handle_client_data srv [] [resp_command [''SET'', k, v]] =
           (if k = [] \<or> v = [] then ([err_args ''set''], srv, Waiting [])
            else (case lru_put (cache (storage srv)) k v of
                    None \<Rightarrow> ([], srv, Undefined_behaviour)
                  | Some (ok, c) \<Rightarrow>
                      ([''+OK'' @ CRLF],
                       srv\<lparr>storage := (storage srv)\<lparr>cache := c,
                              write_queue := write_queue (storage srv) @ [(k, v)]\<rparr>\<rparr>,
                       Waiting [])))"
  proof (cases "k = [] \<or> v = []")
    case True
    then show ?thesis
      unfolding frame process_command_SET_empty [OF True assms(1,2)] by simp
  next
    case False
    then have "k \<noteq> []" and "v \<noteq> []" by simp_all
    then show ?thesis
      unfolding frame process_command_SET [OF \<open>k \<noteq> []\<close> \<open>v \<noteq> []\<close> assms(1,2)]
      by (simp split: option.splits)
  qed
  moreover have "\<exists>c. lru_put (cache (storage srv)) k v = Some (True, c) \<and>
                 map_of (entries c) k = Some v"
    if "wf_cache (cache (storage srv))" and "\<not> evicts_only_node (cache (storage srv)) k"
    using put_cached [OF that, of v] by blast
  ultimately show ?thesis by blast
qed

theorem ingress_checks_emptiness_only_witness:
  "list_all (\<lambda>c. \<not> isspace c) (''k'' @ replicate 1025 (CHR ''x'')) \<and>
   length (resp_command [''SET'', ''k'', replicate 1025 (CHR ''x'')]) \<le> 4096 \<and>
   map_option fst (lru_put (cache (storage (Server_new []))) ''k'' (replicate 1025 (CHR ''x''))) =
     Some True \<and>
   fst (handle_client_data (Server_new []) [] [resp_command [''SET'', ''k'', replicate 1025 (CHR ''x'')]]) =
     [''+OK'' @ CRLF] \<and>
   snd (snd (handle_client_data (Server_new []) [] [resp_command [''SET'', ''k'', replicate 1025 (CHR ''x'')]])) =
     Waiting []"
proof -
  have l: "length (resp_command [''SET'', ''k'', replicate 1025 (CHR ''x'')]) \<le> 4096"
    by (simp add: resp_command_def bulk_def to_string.simps)
  have w: "wf_cache (cache (storage (Server_new [])))"
    using wf_cache_new [of 1] by (simp add: Server_new_def StorageEngine_new_def)
  have ne: "\<not> evicts_only_node (cache (storage (Server_new []))) ''k''"
    using wf_cache_new [of 1]
    by (simp add: evicts_only_node_def Server_new_def StorageEngine_new_def)
  have s: "list_all (\<lambda>c. \<not> isspace c) (''k'' @ replicate 1025 (CHR ''x''))"
    by (simp add: isspace_def list_all_iff)
  have t: "handle_client_data (Server_new []) [] [resp_command [''SET'', ''k'', replicate 1025 (CHR ''x'')]] =
      (case lru_put (cache (storage (Server_new []))) ''k'' (replicate 1025 (CHR ''x'')) of
         None \<Rightarrow> ([], Server_new [], Undefined_behaviour)
       | Some (ok, c) \<Rightarrow>
           ([''+OK'' @ CRLF],
            (Server_new [])\<lparr>storage := (storage (Server_new []))\<lparr>cache := c,
               write_queue := write_queue (storage (Server_new [])) @ [(''k'', replicate 1025 (CHR ''x''))]\<rparr>\<rparr>,
            Waiting []))"
    and "\<exists>c. lru_put (cache (storage (Server_new []))) ''k'' (replicate 1025 (CHR ''x'')) = Some (True, c)"
    using ingress_checks_emptiness_only [of "''k''" "replicate 1025 (CHR ''x'')" "Server_new []", OF _ _ l]
      w ne
    by (auto simp: isspace_def simp del: handle_client_data.simps)
  then obtain c where
    p: "lru_put (cache (storage (Server_new []))) ''k'' (replicate 1025 (CHR ''x'')) = Some (True, c)"
    by blast
  show ?thesis
    using s l by (simp add: t p del: handle_client_data.simps)
qed

text \<open>
  Claim C4 as stated fails: a SET whose key has 257 bytes is answered \<open>+OK\<close> and the pair
  is stored in the cache.
\<close>

theorem oversized_key_accepted_counterexample:
  "256 < length (replicate 257 (CHR ''a'')) \<and>
   fst (handle_client_data (Server_new []) [] [resp_command [''SET'', replicate 257 (CHR ''a''), ''v'']])
     = [''+OK'' @ CRLF] \<and>
   entries (cache (storage (fst (snd
     (handle_client_data (Server_new []) [] [resp_command [''SET'', replicate 257 (CHR ''a''), ''v'']])))))
     = [(replicate 257 (CHR ''a''), ''v'')]"
  by code_simp

lemma find_crlf_end:
  "find_crlf h = None \<Longrightarrow> find_crlf (h @ CR # LF # rest) = Some (length h)"
proof (induction h)
  case Nil
  then show ?case by simp
next
  case (Cons a h)
  then show ?case by (cases h) (auto split: if_splits)
qed

lemma stoi_negative:
  assumes "\<forall>c \<in> set ws. isspace c"
    and "ds \<noteq> []" and "\<forall>c \<in> set ds. isdigit c"
    and "junk = [] \<or> \<not> isdigit (hd junk)"
    and "digits_val ds \<le> 2 ^ 31"
  shows "stoi (ws @ CHR ''-'' # ds @ junk) = Some (- int (digits_val ds))"
proof -
  have m: "\<not> isspace (CHR ''-'')" by (simp add: isspace_def)
  have d: "dropWhile isspace (ws @ CHR ''-'' # ds @ junk) = CHR ''-'' # ds @ junk"
    using assms(1) m by (simp add: dropWhile_append2)
  have "takeWhile isdigit junk = []" using assms(4) by (cases junk) auto
  then have t: "takeWhile isdigit (ds @ junk) = ds"
    using assms(3) by (simp add: takeWhile_append2)
  show ?thesis
    unfolding stoi_def d Let_def using assms(2,5) by (simp add: t)
qed

text \<open>
  Claim C10, as amended. In the loop over the arguments of an array request, take an
  element header \<open>$\<close>, white space (possibly none), \<open>-\<close>, digits that stand for a number from
  1 to \<open>2^31\<close>, and then anything that does not begin with a digit: \<open>std::stoi\<close> reads
  the length of such a header as a negative \<open>int\<close>. The element is taken as the empty
  string, and the loop goes on with the next element on the buffer right behind the
  header line.
\<close>

theorem negative_bulk_length_is_empty_argument:
  assumes "\<forall>c \<in> set ws. isspace c"
    and "ds \<noteq> []" and "\<forall>c \<in> set ds. isdigit c"
    and "junk = [] \<or> \<not> isdigit (hd junk)"
    and "0 < digits_val ds" and "digits_val ds \<le> 2 ^ 31"
    and "find_crlf (ws @ ''-'' @ ds @ junk) = None"
  shows "parse_args (Suc n) (''$'' @ ws @ ''-'' @ ds @ junk @ CRLF @ rest) args
           = parse_args n rest (args @ [[]])"
proof -
  let ?h = "ws @ CHR ''-'' # ds @ junk"
  let ?hdr = "CHR ''$'' # ?h"
  have buf: "''$'' @ ws @ ''-'' @ ds @ junk @ CRLF @ rest = ?hdr @ CR # LF # rest" by simp
  have "find_crlf ?hdr = None"
    using assms(7) by (cases ?h) auto
  then have f: "find_crlf (?hdr @ CR # LF # rest) = Some (length ?hdr)"
    by (rule find_crlf_end)
  have "take (length xs) (xs @ CR # LF # rest) = xs" for xs :: string by simp
  then have tk: "take (length ?hdr) (?hdr @ CR # LF # rest) = ?hdr" .
  have "drop (length xs + 2) (xs @ CR # LF # rest) = rest" for xs :: string by simp
  then have dr: "drop (length ?hdr + 2) (?hdr @ CR # LF # rest) = rest" .
  have st: "stoi ?h = Some (- int (digits_val ds))"
    using assms(1-4,6) by (rule stoi_negative)
  show ?thesis
    unfolding buf parse_args.simps f option.case Let_def tk dr
    using assms(5) by (simp add: st)
qed

theorem negative_bulk_length_is_empty_argument_witness:
  "parse_args (Suc 0) (''$-1'' @ CRLF @ ''foo'' @ CRLF) [''GET'']
     = Complete [''GET'', []] (''foo'' @ CRLF) \<and>
   parse_args (Suc 0) (''$ -007x'' @ CRLF @ ''foo'' @ CRLF) [''GET'']
     = Complete [''GET'', []] (''foo'' @ CRLF)"
  using negative_bulk_length_is_empty_argument [of "[]" "''1''" "[]" 0 "''foo'' @ CRLF" "[''GET'']"]
    negative_bulk_length_is_empty_argument [of "'' ''" "''007''" "''x''" 0 "''foo'' @ CRLF" "[''GET'']"]
  by (simp add: isspace_def isdigit_def digits_val_def)

text \<open>
  Claim C10 as stated fails for a negative length below \<open>-2^31\<close>: \<open>std::stoi\<close> throws
  \<open>std::out_of_range\<close> before the length is compared with 0. Nothing in the server
  catches the exception, so the element is not taken as an empty string; the process
  ends.
\<close>

theorem bulk_length_below_int_min_counterexample:
  "stoi ''-2147483648'' = Some (- 2147483648) \<and>
   stoi ''-2147483649'' = None \<and>
   parse_args (Suc 0) (''$-2147483649'' @ CRLF @ ''foo'' @ CRLF) [''GET''] = Throw \<and>
   loop_body (Server_new [])
     (''*2'' @ CRLF @ ''$3'' @ CRLF @ ''GET'' @ CRLF @ ''$-2147483649'' @ CRLF) = Uncaught \<and>
   snd (snd (handle_client_data (Server_new []) []
     [''*2'' @ CRLF @ ''$3'' @ CRLF @ ''GET'' @ CRLF @ ''$-2147483649'' @ CRLF])) = Terminated"
proof -
  have s: "stoi ''-2147483649'' = None" "stoi ''-2147483648'' = Some (- 2147483648)"
    "stoi ''2'' = Some 2" "stoi ''3'' = Some 3"
    by (simp_all add: stoi_def isspace_def isdigit_def digits_val_def Let_def)
  have p: "parse_args (Suc 0) (''$-2147483649'' @ CRLF @ ''foo'' @ CRLF) [''GET''] = Throw"
    by (simp add: s)
  have q: "parse_args 2 (''$3'' @ CRLF @ ''GET'' @ CRLF @ ''$-2147483649'' @ CRLF) [] = Throw"
    by (simp add: s numeral_2_eq_2 size_t_of_def int_wrap_def)
  have l: "loop_body (Server_new [])
     (''*2'' @ CRLF @ ''$3'' @ CRLF @ ''GET'' @ CRLF @ ''$-2147483649'' @ CRLF) = Uncaught"
    using q by (simp add: loop_body_def s)
  have "process_buffer (Server_new [])
     (''*2'' @ CRLF @ ''$3'' @ CRLF @ ''GET'' @ CRLF @ ''$-2147483649'' @ CRLF) =
       ([], Server_new [], Terminated)"
    by (subst process_buffer.simps) (simp only: l iteration.case)
  then have "handle_client_data (Server_new []) []
     [''*2'' @ CRLF @ ''$3'' @ CRLF @ ''GET'' @ CRLF @ ''$-2147483649'' @ CRLF] =
       ([], Server_new [], Terminated)"
    by (subst handle_one_read) simp_all
  with s p l show ?thesis by simp
qed

text \<open>
  Claim C5 fails on the code. The request \<open>GET foo\<close> read in one piece is answered with
  one reply (nil on an empty store). Read in two pieces, the first piece, an incomplete
  request, is consumed from the buffer, and the second piece is then taken for two
  single-line commands, each answered with an error.
\<close>

theorem split_request_diverges:
  "''*2'' @ CRLF @ ''$3'' @ CRLF @ ''GET'' @ CRLF @ ''$3'' @ CRLF @ ''foo'' @ CRLF
     = resp_command [''GET'', ''foo''] \<and>
   fst (handle_client_data (Server_new []) [] [resp_command [''GET'', ''foo'']]) = [nil_reply] \<and>
   handle_client_data (Server_new []) [] [''*2'' @ CRLF @ ''$3'' @ CRLF @ ''GET'' @ CRLF]
     = ([], Server_new [], Waiting []) \<and>
   fst (handle_client_data (Server_new []) []
          [''*2'' @ CRLF @ ''$3'' @ CRLF @ ''GET'' @ CRLF, ''$3'' @ CRLF @ ''foo'' @ CRLF])
     = [''-ERR unknown command '' @ [CHR 0x27] @ ''$3'' @ [CHR 0x27] @ CRLF,
        ''-ERR unknown command '' @ [CHR 0x27] @ ''foo'' @ [CHR 0x27] @ CRLF]"
  by code_simp

text \<open>
  Claim C2 fails on the code. After SET k v the pair waits in the queue of pending
  writes; DEL k removes the key from the cache and answers \<open>:1\<close>, but leaves the queue as
  it is. The next turn of the writer thread puts the pair into the disk storage, and
  GET k, with no SET in between, is answered with the value.
\<close>

theorem del_leaves_pending_write:
  "(let r1 = handle_client_data (Server_new []) [] [resp_command [''SET'', ''k'', ''v''], resp_command [''DEL'', ''k'']];
        srv1 = fst (snd r1);
        srv2 = worker_turns 1 srv1;
        r2 = handle_client_data srv2 [] [resp_command [''GET'', ''k'']]
    in fst r1 = [''+OK'' @ CRLF, '':1'' @ CRLF] \<and>
       write_queue (storage srv1) = [(''k'', ''v'')] \<and>
       data (disk_storage (storage srv1)) = [] \<and>
       data (disk_storage (storage srv2)) = [(''k'', ''v'')] \<and>
       fst r2 = [bulk ''v''])"
  by code_simp

text \<open>
  Claim C3 fails on the code for a key that contains \<open>=\<close>. After SET a=b c and
  \<open>sync\<close> the file holds the line \<open>a=b=c\<close>; the restarted engine splits it at the first
  \<open>=\<close> and knows the key \<open>a\<close> with the value \<open>b=c\<close>, so that GET a=b is answered nil.
\<close>

theorem key_with_separator_lost_on_restart:
  "(let r1 = handle_client_data (Server_new []) [] [resp_command [''SET'', ''a=b'', ''c'']];
        e1 = sync (storage (fst (snd r1)));
        srv2 = \<lparr>storage = restart e1, should_stop = False\<rparr>;
        r2 = handle_client_data srv2 [] [resp_command [''GET'', ''a=b'']]
    in fst r1 = [''+OK'' @ CRLF] \<and>
       write_queue e1 = [] \<and>
       data (disk_storage e1) = [(''a=b'', ''c'')] \<and>
       data_file (disk_storage e1) = ''a=b=c'' @ [LF] \<and>
       data (disk_storage (storage srv2)) = [(''a'', ''b=c'')] \<and>
       fst r2 = [nil_reply])"
  by code_simp

section \<open>Properties of the binary log\<close>

lemma u32_roundtrip:
  assumes "n < 2 ^ 32"
  shows "u32_of (u32_bytes n) = n"
proof -
  define m1 where "m1 = n div 256"
  define m2 where "m2 = m1 div 256"
  define m3 where "m3 = m2 div 256"
  have d2: "n div 65536 = m2"
    unfolding m2_def m1_def by (simp add: div_mult2_eq)
  have d3: "n div 16777216 = m3"
    unfolding m3_def m2_def m1_def by (simp add: div_mult2_eq)
  have "m3 < 256"
    using assms unfolding d3 [symmetric] by (simp add: less_mult_imp_div_less)
  then have e3: "m3 mod 256 = m3" by simp
  have e2: "m2 mod 256 + 256 * m3 = m2" unfolding m3_def by simp
  have e1: "m1 mod 256 + 256 * m2 = m1" unfolding m2_def by simp
  have e0: "n mod 256 + 256 * m1 = n" unfolding m1_def by simp
  have "u32_of (u32_bytes n) = n mod 256 + 256 * (m1 mod 256 + 256 * (m2 mod 256 + 256 * (m3 mod 256)))"
    by (simp add: u32_of_def u32_bytes_def d2 d3 m1_def [symmetric])
  also have "\<dots> = n"
    by (simp only: e3 e2 e1 e0)
  finally show ?thesis .
qed

lemma u32_bytes_length [simp]: "length (u32_bytes n) = 4"
  by (simp add: u32_bytes_def)

lemma corrupt_read_fails:
  "corrupt_record f offset k \<Longrightarrow> read_value f offset k = None"
  by (auto simp: corrupt_record_def read_value_def read_at_def Let_def
        MAX_KEY_SIZE_def MAX_VALUE_SIZE_def split: option.splits if_splits)

lemma sound_read_succeeds:
  "\<not> corrupt_record f offset k \<Longrightarrow>
   read_value f offset k =
     Some (take (u32_of (take 4 (drop (offset + 4 + length k) f))) (drop (offset + 4 + length k + 4) f))"
  by (auto simp: corrupt_record_def read_value_def read_at_def Let_def
        MAX_KEY_SIZE_def MAX_VALUE_SIZE_def split: option.splits if_splits)

lemma repl_command_GET:
  assumes "k \<noteq> []" and "\<forall>c \<in> set k. \<not> isspace c"
  shows "repl_command s (''GET '' @ k) = Some (fst (get_a s k) @ [LF], snd (get_a s k))"
proof -
  have cmd: "read_token (''GET'' @ CHR '' '' # k) = (''GET'', CHR '' '' # k)"
    by (rule read_token_word) (simp_all add: isspace_def)
  have arg: "read_token (CHR '' '' # k) = (k, [])"
    using read_token_word(2) [OF assms] by (simp add: read_token_space)
  have j: "''GET '' @ k = ''GET'' @ CHR '' '' # k" by simp
  show ?thesis
    unfolding repl_command_def j cmd
    using assms(1) by (simp add: arg split: prod.splits)
qed

text \<open>
  Claim C8, as amended. When \<open>get\<close> of the engine with the binary log has to read the
  record of a key from the log and the record is corrupt (the file ends before the end
  of the record, the stored key length exceeds 256, the stored value length exceeds
  1024, or the stored key is another one), it returns the empty string, as it does for
  a key it does not know, and leaves the engine, the log included, as it was. The
  command loop, the caller of this engine, then prints an empty line for \<open>GET\<close>.
\<close>

theorem corrupt_record_reads_as_absent:
  assumes "map_of (data_a s) k = None"
    and "map_of (disk_index s) k = Some (offset, sz)"
    and "corrupt_record (data_dat s) offset k"
  shows "get_a s k = ([], s) \<and>
         get_a (s\<lparr>disk_index := AList.delete k (disk_index s)\<rparr>) k
           = ([], s\<lparr>disk_index := AList.delete k (disk_index s)\<rparr>) \<and>
         (k \<noteq> [] \<and> (\<forall>c \<in> set k. \<not> isspace c) \<longrightarrow>
            repl_command s (''GET '' @ k) = Some ([LF], s))"
proof -
  have g: "get_a s k = ([], s)"
    using assms corrupt_read_fails [OF assms(3)] by (simp add: get_a_def)
  have a: "get_a (s\<lparr>disk_index := AList.delete k (disk_index s)\<rparr>) k
           = ([], s\<lparr>disk_index := AList.delete k (disk_index s)\<rparr>)"
    using assms(1) by (simp add: get_a_def delete_conv')
  have "repl_command s (''GET '' @ k) = Some ([LF], s)"
    if "k \<noteq> []" and "\<forall>c \<in> set k. \<not> isspace c"
    using repl_command_GET [OF that, of s] by (simp add: g)
  with g a show ?thesis by blast
qed

lemma write_record_small:
  "length k < 2 ^ 32 \<Longrightarrow> length v < 2 ^ 32 \<Longrightarrow> write_record k v = log_record (k, v)"
  by (simp add: write_record_def log_record_def Let_def)

lemma split_record_log_record:
  assumes "length (fst kv) < 2 ^ 32" and "length (snd kv) < 2 ^ 32"
  shows "split_record (log_record kv @ rest) = Some (kv, rest)"
proof -
  obtain k v where kv: "kv = (k, v)" by (cases kv)
  have t1: "take 4 (log_record kv @ rest) = u32_bytes (length k)"
    by (simp add: log_record_def kv)
  have t2: "take 4 (drop (4 + length k) (log_record kv @ rest)) = u32_bytes (length v)"
    by (simp add: log_record_def kv)
  have k: "u32_of (u32_bytes (length k)) = length k"
    using assms(1) kv by (simp add: u32_roundtrip)
  have v: "u32_of (u32_bytes (length v)) = length v"
    using assms(2) kv by (simp add: u32_roundtrip)
  show ?thesis
    unfolding split_record_def t1 k Let_def t2 v
    by (simp add: log_record_def kv)
qed

lemma log_record_nonempty [simp]: "log_record kv \<noteq> []"
  by (simp add: log_record_def u32_bytes_def)

lemma decode_log_records:
  "\<forall>kv \<in> set ps. length (fst kv) < 2 ^ 32 \<and> length (snd kv) < 2 ^ 32 \<Longrightarrow>
   decode_log (concat (map log_record ps) @ rest) = map_option ((@) ps) (decode_log rest)"
proof (induction ps)
  case Nil
  then show ?case by (simp add: option.map_ident)
next
  case (Cons kv ps)
  then have sp: "split_record (log_record kv @ (concat (map log_record ps) @ rest))
      = Some (kv, concat (map log_record ps) @ rest)"
    by (intro split_record_log_record) simp_all
  have ih: "decode_log (concat (map log_record ps) @ rest) = map_option ((@) ps) (decode_log rest)"
    using Cons by simp
  have "decode_log (log_record kv @ (concat (map log_record ps) @ rest))
      = map_option ((#) kv) (decode_log (concat (map log_record ps) @ rest))"
    by (subst decode_log.simps) (simp add: sp)
  then show ?case
    by (simp add: ih option.map_comp comp_def)
qed

lemma split_record_append:
  "split_record f = Some (kv, rest) \<Longrightarrow> split_record (f @ g) = Some (kv, rest @ g)"
  by (auto simp: split_record_def Let_def split: if_splits)

lemma decode_log_append:
  "decode_log f = Some qs \<Longrightarrow> decode_log (f @ g) = map_option ((@) qs) (decode_log g)"
proof (induction f arbitrary: qs rule: decode_log.induct)
  case (1 f)
  show ?case
  proof (cases "f = []")
    case True
    with "1.prems" show ?thesis
      by (simp add: decode_log.simps [of "[]"] option.map_ident)
  next
    case False
    from "1.prems" False obtain kv rest rs where
      sp: "split_record f = Some (kv, rest)" and rs: "decode_log rest = Some rs" and qs: "qs = kv # rs"
      by (subst (asm) decode_log.simps) (auto split: option.splits)
    have ih: "decode_log (rest @ g) = map_option ((@) rs) (decode_log g)"
      using "1.IH" [OF False sp refl rs] .
    have "decode_log (f @ g) = map_option ((#) kv) (decode_log (rest @ g))"
      using False by (subst decode_log.simps) (simp add: split_record_append [OF sp])
    then show ?thesis
      by (simp add: ih qs option.map_comp comp_def)
  qed
qed

lemma decode_log_Nil: "decode_log [] = Some []"
  by (simp add: decode_log.simps)

lemma flush_entries_data_dat:
  "data_dat (foldl flush_entry s es) = data_dat s @ concat (map (\<lambda>e. write_record (fst e) (snd e)) es)"
  by (induction es arbitrary: s) (simp_all add: flush_entry_def update_disk_index_def Let_def)

lemma evict_oldest_keeps [simp]:
  "data_dat (evict_oldest n s) = data_dat s"
  "write_buffer (evict_oldest n s) = write_buffer s"
  by (induction n s rule: evict_oldest.induct) (auto split: list.splits)

lemma set_a_log:
  "data_dat (snd (set_a s k v)) =
     data_dat s @ concat (map (\<lambda>e. write_record (fst e) (snd e)) (write_buffer s @ [(k, v)]))"
  "write_buffer (snd (set_a s k v)) = []"
  by (simp_all add: set_a_def Let_def flush_write_buffer_def flush_entries_data_dat)

lemma set_all_log:
  assumes "write_buffer s = []"
    and "\<forall>kv \<in> set ps. length (fst kv) < 2 ^ 32 \<and> length (snd kv) < 2 ^ 32"
  shows "data_dat (set_all s ps) = data_dat s @ concat (map log_record ps) \<and>
         write_buffer (set_all s ps) = []"
  using assms
proof (induction ps rule: rev_induct)
  case Nil
  then show ?case by (simp add: set_all_def)
next
  case (snoc kv ps)
  then have ih: "data_dat (set_all s ps) = data_dat s @ concat (map log_record ps)"
    and wb: "write_buffer (set_all s ps) = []" by simp_all
  have step: "set_all s (ps @ [kv]) = snd (set_a (set_all s ps) (fst kv) (snd kv))"
    by (simp add: set_all_def)
  have "write_record (fst kv) (snd kv) = log_record kv"
    using snoc.prems(2) write_record_small [of "fst kv" "snd kv"] by simp
  then show ?case
    by (simp add: step set_a_log ih wb)
qed

text \<open>
  Claim C9, as amended. In the engine with the binary log, every \<open>set\<close> of a key and a
  value shorter than \<open>2^32\<close> bytes appends exactly the record
  \<open>u32 key_len | key | u32 value_len | value\<close> to \<open>data.dat\<close>, what was in the file stays,
  and the log decodes to the pairs written, in order. The \<open>DiskStorage\<close> of the server
  keeps no log: each \<open>put\<close> rewrites its text file with one line \<open>key=value\<close> for each key
  it holds, the lines in some order.
\<close>

theorem log_is_appended_records:
  assumes "write_buffer s = []"
    and "\<forall>kv \<in> set ps. length (fst kv) < 2 ^ 32 \<and> length (snd kv) < 2 ^ 32"
  shows "data_dat (set_all s ps) = data_dat s @ concat (map log_record ps) \<and>
         decode_log (concat (map log_record ps)) = Some ps \<and>
         (decode_log (data_dat s) = Some qs \<longrightarrow> decode_log (data_dat (set_all s ps)) = Some (qs @ ps)) \<and>
         map_of (data (disk_put d k v)) = (map_of (data d))(k \<mapsto> v) \<and>
         (\<exists>ls. mset ls = mset (data (disk_put d k v)) \<and>
               data_file (disk_put d k v) = concat (map (\<lambda>(k0, w). k0 @ ''='' @ w @ [LF]) ls))"
proof -
  have a: "data_dat (set_all s ps) = data_dat s @ concat (map log_record ps)"
    using set_all_log [OF assms] by simp
  have b: "decode_log (concat (map log_record ps)) = Some ps"
    using decode_log_records [OF assms(2), of "[]"] by (simp add: decode_log_Nil)
  have c: "decode_log (data_dat s) = Some qs \<longrightarrow> decode_log (data_dat (set_all s ps)) = Some (qs @ ps)"
    using decode_log_append [of "data_dat s" qs "concat (map log_record ps)"] by (simp add: a b)
  have e: "map_of (data (disk_put d k v)) = (map_of (data d))(k \<mapsto> v)"
    by (simp add: disk_put_def Let_def update_conv')
  have "data_file (disk_put d k v) =
           concat (map (\<lambda>(k0, w). k0 @ ''='' @ w @ [LF]) (data (disk_put d k v)))"
    by (simp add: disk_put_def save_data_def Let_def)
  then have f: "\<exists>ls. mset ls = mset (data (disk_put d k v)) \<and>
      data_file (disk_put d k v) = concat (map (\<lambda>(k0, w). k0 @ ''='' @ w @ [LF]) ls)"
    by blast
  from a b c e f show ?thesis by blast
qed



theorem corrupt_record_reads_as_absent_witness:
  "map_of (data_a mismatch_example) ''k'' = None \<and>
   map_of (disk_index mismatch_example) ''k'' = Some (0, 10) \<and>
   corrupt_record (data_dat mismatch_example) 0 ''k'' \<and>
   get_a mismatch_example ''k'' = ([], mismatch_example) \<and>
   repl_command mismatch_example ''GET k'' = Some ([LF], mismatch_example) \<and>
   corrupt_record (data_dat truncated_example) 0 ''k'' \<and>
   get_a truncated_example ''k'' = ([], truncated_example) \<and>
   repl_command truncated_example ''GET k'' = Some ([LF], truncated_example)"
proof -
  have m1: "map_of (data_a mismatch_example) ''k'' = None"
    and m2: "map_of (disk_index mismatch_example) ''k'' = Some (0, 10)"
    and m3: "corrupt_record (data_dat mismatch_example) 0 ''k''"
    by (simp_all add: mismatch_example_def StorageEngineA_new_def
          corrupt_record_def log_record_def u32_bytes_def u32_of_def)
  have t1: "map_of (data_a truncated_example) ''k'' = None"
    and t2: "map_of (disk_index truncated_example) ''k'' = Some (0, 10)"
    and t3: "corrupt_record (data_dat truncated_example) 0 ''k''"
    by (simp_all add: truncated_example_def StorageEngineA_new_def
          corrupt_record_def log_record_def u32_bytes_def u32_of_def)
  have k: "''k'' \<noteq> [] \<and> (\<forall>c \<in> set ''k''. \<not> isspace c)" "''GET '' @ ''k'' = ''GET k''"
    by (simp_all add: isspace_def)
  show ?thesis
    using corrupt_record_reads_as_absent [OF m1 m2 m3]
      corrupt_record_reads_as_absent [OF t1 t2 t3] m1 m2 m3 t3 k
    by metis
qed

text \<open>
  Claim C8 as stated fails in its reply: the engine with the binary log has no client
  on a socket. For a record cut short, \<open>get\<close> returns the empty string and the command
  loop prints an empty line, not the nil reply \<open>$-1\<close>. The server, which sends that
  reply, runs on the engine of part-b, whose \<open>get\<close> reads no record from a file.
\<close>

theorem corrupt_read_prints_empty_line_counterexample:
  "map_of (data_a truncated_example) ''k'' = None \<and>
   map_of (disk_index truncated_example) ''k'' = Some (0, 10) \<and>
   corrupt_record (data_dat truncated_example) 0 ''k'' \<and>
   repl_command truncated_example ''GET k'' = Some ([LF], truncated_example) \<and>
   [LF] \<noteq> nil_reply"
proof -
  have t1: "map_of (data_a truncated_example) ''k'' = None"
    and t2: "map_of (disk_index truncated_example) ''k'' = Some (0, 10)"
    and t3: "corrupt_record (data_dat truncated_example) 0 ''k''"
    by (simp_all add: truncated_example_def StorageEngineA_new_def
          corrupt_record_def log_record_def u32_bytes_def u32_of_def)
  have g: "get_a truncated_example ''k'' = ([], truncated_example)"
    using t1 t2 corrupt_read_fails [OF t3] by (simp add: get_a_def)
  have "repl_command truncated_example (''GET '' @ ''k'') = Some ([LF], truncated_example)"
    by (subst repl_command_GET) (simp_all add: isspace_def g)
  then have r: "repl_command truncated_example ''GET k'' = Some ([LF], truncated_example)"
    by simp
  have n: "[LF] \<noteq> nil_reply" by (simp add: nil_reply_def)
  from t1 t2 t3 r n show ?thesis by blast
qed

theorem log_is_appended_records_witness:
  "write_buffer StorageEngineA_new = [] \<and>
   data_dat (set_all StorageEngineA_new [(''k'', ''v''), (''k'', ''w'')])
     = log_record (''k'', ''v'') @ log_record (''k'', ''w'') \<and>
   decode_log (data_dat (set_all StorageEngineA_new [(''k'', ''v''), (''k'', ''w'')]))
     = Some [(''k'', ''v''), (''k'', ''w'')]"
  using log_is_appended_records [of StorageEngineA_new "[(''k'', ''v''), (''k'', ''w'')]" "[]"]
  by (simp add: StorageEngineA_new_def decode_log_Nil)

text \<open>
  Claim C9 as stated fails for the \<open>DiskStorage\<close> of the server: what \<open>save_data\<close> writes
  for a pair is a text line, not the binary record, and a second \<open>put\<close> of the key
  replaces the line of the first.
\<close>

theorem disk_storage_rewrites_text_file_counterexample:
  "data_file (disk_put (DiskStorage_new []) ''k'' ''v'') = ''k=v'' @ [LF] \<and>
   data_file (disk_put (DiskStorage_new []) ''k'' ''v'') \<noteq> log_record (''k'', ''v'') \<and>
   data_file (disk_put (disk_put (DiskStorage_new []) ''k'' ''v'') ''k'' ''w'') = ''k=w'' @ [LF]"
  by (simp add: disk_put_def DiskStorage_new_def load_data_def save_data_def log_record_def
        u32_bytes_def Let_def)

end
